theory Spec2Isabelle
  imports
    Complex_Main
    "HOL-Library.Char_ord"
    "HOL-Library.List_Lexorder"
    "HOL-Library.Sublist"
    "HOL-Library.AList"
    "HOL-Library.Word"
begin

section \<open>The environment: a file system and the errors of the core\<close>

text \<open>
  The three components of VersionVault's core (\<^verbatim>\<open>FileObject\<close>, \<^verbatim>\<open>DiffEngine\<close>,
  \<^verbatim>\<open>ObjectStore\<close>) talk to the file system through \<^verbatim>\<open>std::ifstream\<close>,
  \<^verbatim>\<open>std::ofstream\<close> and \<^verbatim>\<open>std::filesystem\<close>. The file system is an explicit
  value that every operation takes and returns: the regular files as an association list
  from path to bytes, the paths that cannot be opened for reading, and the paths that
  cannot be opened for writing. Directories are implicit (\<^verbatim>\<open>create_directories\<close> has
  nothing to do), a path is the string the code builds (no normalisation), and streams
  are POSIX streams: text mode translates nothing.

  Every \<^verbatim>\<open>throw\<close> of the sources is a value \<open>Inl e\<close>; \<^verbatim>\<open>std::string::substr\<close>
  throws \<^verbatim>\<open>std::out_of_range\<close> when its position is beyond the string, and the
  constructor of a \<^verbatim>\<open>std::vector\<close> throws \<^verbatim>\<open>std::length_error\<close> for a size beyond
  \<^verbatim>\<open>max_size()\<close> and \<^verbatim>\<open>std::bad_alloc\<close> when the allocation fails. Where C++ leaves the behaviour undefined (erasing \<^verbatim>\<open>begin()\<close> of an empty map, an
  index outside a vector, an overflow of \<^verbatim>\<open>int\<close>) the model stops with
  \<open>UndefinedBehaviour\<close>.
\<close>

datatype error = RuntimeError string | OutOfRange | LengthError | BadAlloc | UndefinedBehaviour

record filesys =
  files :: "(string \<times> string) list"
  unreadable :: "string set"
  unwritable :: "string set"

definition fs_exists :: "filesys \<Rightarrow> string \<Rightarrow> bool" where
  "fs_exists fs p = (map_of (files fs) p \<noteq> None)"

definition open_read :: "filesys \<Rightarrow> string \<Rightarrow> string option" where
  "open_read fs p = (if p \<in> unreadable fs then None else map_of (files fs) p)"

definition open_write :: "filesys \<Rightarrow> string \<Rightarrow> string \<Rightarrow> filesys option" where
  "open_write fs p bytes =
     (if p \<in> unwritable fs then None
      else Some (fs\<lparr>files := AList.update p bytes (files fs)\<rparr>))"

section \<open>FileObject.cpp\<close>

text \<open>
  The class \<^verbatim>\<open>FileObject\<close> with its two subclasses: the fields of the base class are a
  record, the fields a subclass adds are the \<open>variant\<close> (the dynamic type of the object).
\<close>

datatype variant = TextFile "string list" string | BinaryFile string

record FileObject =
  filepath :: string
  hash :: string
  fileSize :: int
  isModified :: bool
  variant :: variant

definition TextFile_new :: "string \<Rightarrow> FileObject" where
  "TextFile_new path =
     \<lparr>filepath = path, hash = [], fileSize = 0, isModified = False,
      variant = TextFile [] ''UTF-8''\<rparr>"

definition BinaryFile_new :: "string \<Rightarrow> FileObject" where
  "BinaryFile_new path =
     \<lparr>filepath = path, hash = [], fileSize = 0, isModified = False,
      variant = BinaryFile []\<rparr>"

definition isBinary :: "FileObject \<Rightarrow> bool" where
  "isBinary obj = (case variant obj of TextFile _ _ \<Rightarrow> False | BinaryFile _ \<Rightarrow> True)"

text \<open>
  OpenSSL's \<^verbatim>\<open>SHA256\<close> is not code of the repository: it is a parameter \<open>sha\<close> of every
  function that hashes, with \<open>sha msg i\<close> the byte it leaves in \<^verbatim>\<open>digest[i]\<close> for the
  message \<open>msg\<close>. The loop over \<^verbatim>\<open>SHA256_DIGEST_LENGTH\<close> (32, from OpenSSL's header)
  prints each byte with \<^verbatim>\<open>std::hex << std::setw(2) << std::setfill('0')\<close>: two lower
  case hexadecimal digits.
\<close>

type_synonym sha256 = "string \<Rightarrow> nat \<Rightarrow> char"

definition SHA256_DIGEST_LENGTH :: nat where
  "SHA256_DIGEST_LENGTH = 32"

definition hex_digit :: "nat \<Rightarrow> char" where
  "hex_digit n = ''0123456789abcdef'' ! n"

definition hex_byte :: "char \<Rightarrow> string" where
  "hex_byte c = [hex_digit (of_char c div 16), hex_digit (of_char c mod 16)]"

definition hashStream :: "(nat \<Rightarrow> char) \<Rightarrow> string" where
  "hashStream digest = concat (map (\<lambda>i. hex_byte (digest i)) [0..<SHA256_DIGEST_LENGTH])"

text \<open>\<^verbatim>\<open>for (const auto& line : lines) ss << line << "\n";\<close>\<close>

definition join_lines :: "string list \<Rightarrow> string" where
  "join_lines ls = concat (map (\<lambda>l. l @ [CHR 0x0A]) ls)"

definition computeHash :: "sha256 \<Rightarrow> FileObject \<Rightarrow> string" where
  "computeHash sha obj =
     (case variant obj of
        TextFile ls _ \<Rightarrow> hashStream (sha (join_lines ls))
      | BinaryFile d \<Rightarrow> hashStream (sha d))"

definition getHash :: "sha256 \<Rightarrow> FileObject \<Rightarrow> string \<times> FileObject" where
  "getHash sha obj =
     (if hash obj = [] \<or> isModified obj
      then (let h = computeHash sha obj in (h, obj\<lparr>hash := h, isModified := False\<rparr>))
      else (hash obj, obj))"

text \<open>
  \<^verbatim>\<open>while (std::getline(file, line)) lines.push_back(line);\<close> One call of
  \<^verbatim>\<open>std::getline\<close> takes characters up to the next line feed, which it drops; at the
  end of the file it succeeds if it took at least one character. \<open>line\<close> is what the
  current call has taken so far.
\<close>

fun getline_loop :: "string \<Rightarrow> string \<Rightarrow> string list" where
  "getline_loop line [] = (if line = [] then [] else [line])"
| "getline_loop line (c # cs) =
     (if c = CHR 0x0A then line # getline_loop [] cs else getline_loop (line @ [c]) cs)"

definition readContent :: "filesys \<Rightarrow> FileObject \<Rightarrow> error + (string \<times> FileObject)" where
  "readContent fs obj =
     (case open_read fs (filepath obj) of
        None \<Rightarrow> Inl (RuntimeError (''Cannot open file: '' @ filepath obj))
      | Some bytes \<Rightarrow>
          (case variant obj of
             TextFile _ enc \<Rightarrow>
               (let ls = getline_loop [] bytes
                in Inr (join_lines ls, obj\<lparr>variant := TextFile ls enc\<rparr>))
           | BinaryFile _ \<Rightarrow>
               Inr (bytes, obj\<lparr>fileSize := int (length bytes), variant := BinaryFile bytes\<rparr>)))"

definition writeContent :: "filesys \<Rightarrow> string \<Rightarrow> FileObject \<Rightarrow> error + (FileObject \<times> filesys)" where
  "writeContent fs bytes obj =
     (case open_write fs (filepath obj) bytes of
        None \<Rightarrow> Inl (RuntimeError (''Cannot write to file: '' @ filepath obj))
      | Some fs' \<Rightarrow>
          (case variant obj of
             TextFile _ _ \<Rightarrow> Inr (obj\<lparr>isModified := True\<rparr>, fs')
           | BinaryFile _ \<Rightarrow> Inr (obj\<lparr>isModified := True, variant := BinaryFile bytes\<rparr>, fs')))"

text \<open>\<^verbatim>\<open>TextFile::setLines\<close> (the object is a text file: the method is not one of the base class).\<close>

definition setLines :: "string list \<Rightarrow> FileObject \<Rightarrow> FileObject" where
  "setLines newLines obj =
     (case variant obj of
        TextFile _ enc \<Rightarrow> obj\<lparr>isModified := True, variant := TextFile newLines enc\<rparr>
      | BinaryFile _ \<Rightarrow> obj)"

definition detectBinary :: "filesys \<Rightarrow> string \<Rightarrow> bool" where
  "detectBinary fs path =
     (case open_read fs path of
        None \<Rightarrow> False
      | Some bytes \<Rightarrow> CHR 0x00 \<in> set (take 512 bytes))"

definition createFileObject :: "filesys \<Rightarrow> string \<Rightarrow> FileObject" where
  "createFileObject fs path =
     (if detectBinary fs path then BinaryFile_new path else TextFile_new path)"

section \<open>DiffEngine.cpp\<close>

datatype ChangeType = ADDED | REMOVED | MODIFIED | UNCHANGED

record Change =
  type :: ChangeType
  path :: string
  oldHash :: string
  newHash :: string

text \<open>
  \<^verbatim>\<open>compareFiles\<close> takes two pointers, \<open>None\<close> for \<^verbatim>\<open>nullptr\<close>. \<^verbatim>\<open>getHash\<close> caches, so
  the objects are returned as the call leaves them.
\<close>

definition compareFiles ::
  "sha256 \<Rightarrow> FileObject option \<Rightarrow> FileObject option
     \<Rightarrow> Change \<times> FileObject option \<times> FileObject option" where
  "compareFiles sha oldFile newFile =
     (case (oldFile, newFile) of
        (None, None) \<Rightarrow>
          (\<lparr>type = UNCHANGED, path = [], oldHash = [], newHash = []\<rparr>, None, None)
      | (None, Some n) \<Rightarrow>
          (let (h, n') = getHash sha n
           in (\<lparr>type = ADDED, path = filepath n, oldHash = [], newHash = h\<rparr>, None, Some n'))
      | (Some old, None) \<Rightarrow>
          (let (h, old') = getHash sha old
           in (\<lparr>type = REMOVED, path = filepath old, oldHash = h, newHash = []\<rparr>,
               Some old', None))
      | (Some old, Some n) \<Rightarrow>
          (let (oh, old') = getHash sha old; (nh, n') = getHash sha n
           in (if oh = nh
               then \<lparr>type = UNCHANGED, path = filepath old, oldHash = oh, newHash = nh\<rparr>
               else \<lparr>type = MODIFIED, path = filepath old, oldHash = oh, newHash = nh\<rparr>,
               Some old', Some n')))"

text \<open>
  \<^verbatim>\<open>calculateSimilarity\<close>. The lengths are narrowed from \<^verbatim>\<open>size_t\<close> to a 32-bit
  \<^verbatim>\<open>int\<close> (\<open>to_int\<close>: the value modulo \<open>2^32\<close>, read as signed). The table \<^verbatim>\<open>dp\<close> is a
  list of rows; the three \<^verbatim>\<open>for\<close> loops are folds over their index ranges, each step an
  update in place. For lengths that fit, every entry written is a distance between two
  prefixes, between 0 and the longer length (\<open>edit_table_bounds\<close> below), so the
  \<^verbatim>\<open>int\<close> arithmetic inside the loops does not wrap and is written on \<open>int\<close>.

  Two things of the machine are parameters. \<open>heap\<close> is the number of \<^verbatim>\<open>int\<close> cells the
  allocator can give: the constructor of a larger table throws \<^verbatim>\<open>std::bad_alloc\<close>.
  \<open>rnd\<close> is the rounding of a real number to a \<^verbatim>\<open>double\<close>: the result is a
  \<^verbatim>\<open>double\<close>, named by the real number it is. In
  \<^verbatim>\<open>1.0 - (static_cast<double>(distance) / maxLen)\<close> the two conversions are exact (both
  numbers are below \<open>2^31\<close>), the quotient is rounded and the difference is rounded;
  \<^verbatim>\<open>1.0\<close> and \<^verbatim>\<open>0.0\<close> are doubles.
\<close>

definition INT_MAX :: int where
  "INT_MAX = 2147483647"

definition to_int :: "nat \<Rightarrow> int" where
  "to_int k = sint (word_of_nat k :: 32 word)"

definition dp_set :: "int list list \<Rightarrow> nat \<Rightarrow> nat \<Rightarrow> int \<Rightarrow> int list list" where
  "dp_set dp i j v = dp[i := (dp ! i)[j := v]]"

definition dp_step :: "string \<Rightarrow> string \<Rightarrow> nat \<Rightarrow> nat \<Rightarrow> int list list \<Rightarrow> int list list" where
  "dp_step text1 text2 i j dp =
     (if text1 ! (i - 1) = text2 ! (j - 1) then dp_set dp i j (dp ! (i - 1) ! (j - 1))
      else dp_set dp i j
             (1 + min (dp ! (i - 1) ! j) (min (dp ! i ! (j - 1)) (dp ! (i - 1) ! (j - 1)))))"

definition edit_table :: "string \<Rightarrow> string \<Rightarrow> nat \<Rightarrow> nat \<Rightarrow> int list list" where
  "edit_table text1 text2 m n =
     (let dp0 = replicate (m + 1) (replicate (n + 1) 0);
          dp1 = fold (\<lambda>i dp. dp_set dp i 0 (int i)) [0..<m + 1] dp0;
          dp2 = fold (\<lambda>j dp. dp_set dp 0 j (int j)) [0..<n + 1] dp1
      in fold (\<lambda>i dp. fold (dp_step text1 text2 i) [1..<n + 1] dp) [1..<m + 1] dp2)"

text \<open>
  After the two early returns neither length is 0. A length that reads as \<open>INT_MAX\<close>
  overflows in \<^verbatim>\<open>m + 1\<close>; one that reads as a negative number makes the size of a vector
  either huge (\<^verbatim>\<open>std::length_error\<close>) or 0, and then the first loop that runs leaves the
  vector.
\<close>

definition calculateSimilarity ::
  "(real \<Rightarrow> real) \<Rightarrow> nat \<Rightarrow> string \<Rightarrow> string \<Rightarrow> error + real" where
  "calculateSimilarity rnd heap text1 text2 =
     (let m = to_int (length text1); n = to_int (length text2) in
      if m = 0 \<and> n = 0 then Inr 1
      else if m = 0 \<or> n = 0 then Inr 0
      else if m = INT_MAX \<or> n = INT_MAX then Inl UndefinedBehaviour
      else if n + 1 < 0 \<or> m + 1 < 0 then Inl LengthError
      else if n + 1 = 0 \<or> m + 1 = 0 then Inl UndefinedBehaviour
      else if heap < nat (m + 1) * nat (n + 1) then Inl BadAlloc
      else
        (let dp = edit_table text1 text2 (nat m) (nat n);
             distance = dp ! nat m ! nat n;
             maxLen = max m n
         in Inr (rnd (1 - rnd (real_of_int distance / real_of_int maxLen)))))"

text \<open>
  \<^verbatim>\<open>SimpleDiff::computeDiff\<close>: the \<^verbatim>\<open>while\<close> loop over the two indices, \<open>result\<close>
  growing at its end. \<^verbatim>\<open>std::string\<close>'s \<^verbatim>\<open><\<close> is the lexicographic order on bytes.
\<close>

function computeDiff_loop ::
  "string list \<Rightarrow> string list \<Rightarrow> nat \<Rightarrow> nat \<Rightarrow> string list \<Rightarrow> string list" where
  "computeDiff_loop oldLines newLines i j result =
     (if i < length oldLines \<or> j < length newLines then
        (if i < length oldLines \<and> j < length newLines \<and> oldLines ! i = newLines ! j then
           computeDiff_loop oldLines newLines (i + 1) (j + 1) (result @ ['' '' @ oldLines ! i])
         else if j \<ge> length newLines \<or> (i < length oldLines \<and> oldLines ! i < newLines ! j) then
           computeDiff_loop oldLines newLines (i + 1) j (result @ [''-'' @ oldLines ! i])
         else
           computeDiff_loop oldLines newLines i (j + 1) (result @ [''+'' @ newLines ! j]))
      else result)"
  by pat_completeness auto
termination
  by (relation "measure (\<lambda>(ol, nl, i, j, r). (length ol - i) + (length nl - j))") auto

definition computeDiff :: "string list \<Rightarrow> string list \<Rightarrow> string list" where
  "computeDiff oldLines newLines =
     computeDiff_loop oldLines newLines 0 0 [''--- old'', ''+++ new'']"

section \<open>ObjectStore.h, ObjectStore.cpp\<close>

text \<open>
  A \<^verbatim>\<open>std::map<std::string, T>\<close> is the list of its entries in the order of its keys
  (\<^verbatim>\<open>begin()\<close> is the head): \<open>map_assign\<close> is \<^verbatim>\<open>m[key] = value\<close>, \<open>map_of\<close> is
  \<^verbatim>\<open>find\<close>, \<open>length\<close> is \<^verbatim>\<open>size()\<close>.
\<close>

fun map_assign :: "string \<Rightarrow> 'v \<Rightarrow> (string \<times> 'v) list \<Rightarrow> (string \<times> 'v) list" where
  "map_assign k v [] = [(k, v)]"
| "map_assign k v ((k', v') # m) =
     (if k < k' then (k, v) # (k', v') # m
      else if k = k' then (k, v) # m
      else (k', v') # map_assign k v m)"

record StoragePool =
  pool :: "(string \<times> string) list"
  maxSize :: nat

definition StoragePool_new :: "nat \<Rightarrow> StoragePool" where
  "StoragePool_new n = \<lparr>pool = [], maxSize = n\<rparr>"

text \<open>
  \<^verbatim>\<open>StoragePool::store\<close>. With \<^verbatim>\<open>maxSize\<close> 0 and an empty map,
  \<^verbatim>\<open>pool.erase(pool.begin())\<close> erases the end iterator: \<open>None\<close>.
\<close>

definition StoragePool_store :: "string \<Rightarrow> string \<Rightarrow> StoragePool \<Rightarrow> StoragePool option" where
  "StoragePool_store key val p =
     (if length (pool p) \<ge> maxSize p then
        (case pool p of
           [] \<Rightarrow> None
         | _ # rest \<Rightarrow> Some (p\<lparr>pool := map_assign key val rest\<rparr>))
      else Some (p\<lparr>pool := map_assign key val (pool p)\<rparr>))"

definition StoragePool_retrieve :: "string \<Rightarrow> StoragePool \<Rightarrow> string option" where
  "StoragePool_retrieve key p = map_of (pool p) key"

definition StoragePool_contains :: "string \<Rightarrow> StoragePool \<Rightarrow> bool" where
  "StoragePool_contains key p = (map_of (pool p) key \<noteq> None)"

definition StoragePool_size :: "StoragePool \<Rightarrow> nat" where
  "StoragePool_size p = length (pool p)"

record ObjectStore =
  storePath :: string
  objectPool :: StoragePool
  hashToPath :: "(string \<times> string) list"

definition ObjectStore_new :: "string \<Rightarrow> ObjectStore" where
  "ObjectStore_new p = \<lparr>storePath = p, objectPool = StoragePool_new 2000, hashToPath = []\<rparr>"

text \<open>
  \<^verbatim>\<open>getInstance\<close>: the static \<^verbatim>\<open>instance\<close> pointer is the first argument and the first
  component of the result.
\<close>

definition getInstance :: "ObjectStore option \<Rightarrow> string \<Rightarrow> ObjectStore option \<times> ObjectStore" where
  "getInstance inst p =
     (case inst of
        None \<Rightarrow>
          (let actualPath = (if p = [] then ''.vv/objects'' else p);
               st = ObjectStore_new actualPath
           in (Some st, st))
      | Some st \<Rightarrow> (Some st, st))"

definition getObjectPath :: "ObjectStore \<Rightarrow> string \<Rightarrow> error + string" where
  "getObjectPath st h =
     (if length h < 2 then Inl OutOfRange
      else Inr (storePath st @ ''/'' @ take 2 h @ ''/'' @ drop 2 h))"

definition hasObject :: "ObjectStore \<Rightarrow> filesys \<Rightarrow> string \<Rightarrow> error + bool" where
  "hasObject st fs h =
     (if StoragePool_contains h (objectPool st) then Inr True
      else (case getObjectPath st h of
              Inl e \<Rightarrow> Inl e
            | Inr objPath \<Rightarrow> Inr (fs_exists fs objPath)))"

text \<open>
  \<^verbatim>\<open>storeObject\<close> changes its argument (the hash it caches, the content it loads), the
  store and the file system; an exception leaves what was changed before it, so the three
  are returned beside the result also when that is an error.
\<close>

definition storeObject ::
  "sha256 \<Rightarrow> ObjectStore \<Rightarrow> filesys \<Rightarrow> FileObject
     \<Rightarrow> (error + string) \<times> FileObject \<times> ObjectStore \<times> filesys" where
  "storeObject sha st fs obj =
     (let (h, obj1) = getHash sha obj in
      case hasObject st fs h of
        Inl e \<Rightarrow> (Inl e, obj1, st, fs)
      | Inr True \<Rightarrow> (Inr h, obj1, st, fs)
      | Inr False \<Rightarrow>
          (case readContent fs obj1 of
             Inl e \<Rightarrow> (Inl e, obj1, st, fs)
           | Inr (content, obj2) \<Rightarrow>
               (case StoragePool_store h content (objectPool st) of
                  None \<Rightarrow> (Inl UndefinedBehaviour, obj2, st, fs)
                | Some pool' \<Rightarrow>
                    (let st1 = st\<lparr>objectPool := pool'\<rparr> in
                     case getObjectPath st1 h of
                       Inl e \<Rightarrow> (Inl e, obj2, st1, fs)
                     | Inr objPath \<Rightarrow>
                         (case open_write fs objPath content of
                            None \<Rightarrow>
                              (Inl (RuntimeError (''Cannot create object file: '' @ objPath)),
                               obj2, st1, fs)
                          | Some fs' \<Rightarrow>
                              (Inr h, obj2,
                               st1\<lparr>hashToPath := map_assign h (filepath obj2) (hashToPath st1)\<rparr>,
                               fs'))))))"

text \<open>
  The end of \<^verbatim>\<open>retrieveObject\<close>, which the source writes twice (after a hit in the pool
  and after reading the blob): the path recorded for the hash or \<^verbatim>\<open>"temp"\<close>, the object
  the factory makes for that path, and \<^verbatim>\<open>writeContent\<close> on it.
\<close>

definition reconstruct ::
  "ObjectStore \<Rightarrow> filesys \<Rightarrow> string \<Rightarrow> string
     \<Rightarrow> (error + FileObject option) \<times> ObjectStore \<times> filesys" where
  "reconstruct st fs h content =
     (let p = (case map_of (hashToPath st) h of Some q \<Rightarrow> q | None \<Rightarrow> ''temp'');
          obj = createFileObject fs p
      in case writeContent fs content obj of
           Inl e \<Rightarrow> (Inl e, st, fs)
         | Inr (obj', fs') \<Rightarrow> (Inr (Some obj'), st, fs'))"

definition retrieveObject ::
  "ObjectStore \<Rightarrow> filesys \<Rightarrow> string \<Rightarrow> (error + FileObject option) \<times> ObjectStore \<times> filesys" where
  "retrieveObject st fs h =
     (case StoragePool_retrieve h (objectPool st) of
        Some content \<Rightarrow> reconstruct st fs h content
      | None \<Rightarrow>
          (case getObjectPath st h of
             Inl e \<Rightarrow> (Inl e, st, fs)
           | Inr objPath \<Rightarrow>
               if \<not> fs_exists fs objPath then (Inr None, st, fs)
               else (case open_read fs objPath of
                       None \<Rightarrow> (Inr None, st, fs)
                     | Some content \<Rightarrow>
                         (case StoragePool_store h content (objectPool st) of
                            None \<Rightarrow> (Inl UndefinedBehaviour, st, fs)
                          | Some pool' \<Rightarrow>
                              reconstruct (st\<lparr>objectPool := pool'\<rparr>) fs h content))))"

text \<open>
  \<^verbatim>\<open>getStorageSize\<close>: the regular files below the store's root are the paths that
  continue \<^verbatim>\<open>storePath + "/"\<close>.
\<close>

definition getStorageSize :: "ObjectStore \<Rightarrow> filesys \<Rightarrow> nat" where
  "getStorageSize st fs =
     sum_list (map (\<lambda>(p, bytes). length bytes)
       (filter (\<lambda>(p, bytes). prefix (storePath st @ ''/'') p) (files fs)))"

text \<open>
  A caller's sequence of calls on the store. The state is threaded through every call,
  also through one that raised.
\<close>

datatype call = StoreObject FileObject | RetrieveObject string

fun run_call :: "sha256 \<Rightarrow> call \<Rightarrow> ObjectStore \<times> filesys \<Rightarrow> ObjectStore \<times> filesys" where
  "run_call sha (StoreObject obj) (st, fs) = snd (snd (storeObject sha st fs obj))"
| "run_call sha (RetrieveObject h) (st, fs) = snd (retrieveObject st fs h)"

definition run_calls :: "sha256 \<Rightarrow> call list \<Rightarrow> ObjectStore \<times> filesys \<Rightarrow> ObjectStore \<times> filesys" where
  "run_calls sha cs s = fold (run_call sha) cs s"

text \<open>
  The expression \<^verbatim>\<open>retrieveObject(storeObject(content))\<close> of the round trip, followed
  by \<^verbatim>\<open>readContent()\<close> on the object it returns: the bytes that come back, \<open>None\<close>
  when the retrieval finds nothing.
\<close>

definition round_trip ::
  "sha256 \<Rightarrow> ObjectStore \<Rightarrow> filesys \<Rightarrow> FileObject \<Rightarrow> error + string option" where
  "round_trip sha st fs obj =
     (case storeObject sha st fs obj of
        (Inl e, _) \<Rightarrow> Inl e
      | (Inr h, _, st1, fs1) \<Rightarrow>
          (case retrieveObject st1 fs1 h of
             (Inl e, _) \<Rightarrow> Inl e
           | (Inr None, _) \<Rightarrow> Inr None
           | (Inr (Some obj'), _, fs2) \<Rightarrow>
               (case readContent fs2 obj' of
                  Inl e \<Rightarrow> Inl e
                | Inr (bytes, _) \<Rightarrow> Inr (Some bytes))))"

text \<open>
  The specification's side of the similarity score: the standard edit distance with unit
  costs (delete the head of the first string, insert the head of the second, or
  substitute one for the other, at no cost when they are equal) and the ratio the
  specification defines from it, with its conventions for empty strings, computed in
  \<^verbatim>\<open>double\<close> arithmetic: the quotient rounded, then the difference rounded.
\<close>

fun levenshteinDistance :: "'a list \<Rightarrow> 'a list \<Rightarrow> nat" where
  "levenshteinDistance [] ys = length ys"
| "levenshteinDistance xs [] = length xs"
| "levenshteinDistance (x # xs) (y # ys) =
     min (min (levenshteinDistance xs (y # ys) + 1) (levenshteinDistance (x # xs) ys + 1))
         (levenshteinDistance xs ys + (if x = y then 0 else 1))"

definition spec_similarity :: "(real \<Rightarrow> real) \<Rightarrow> string \<Rightarrow> string \<Rightarrow> real" where
  "spec_similarity rnd A B =
     (if A = [] \<and> B = [] then 1
      else if A = [] \<or> B = [] then 0
      else rnd (1 - rnd (real (levenshteinDistance A B) / real (max (length A) (length B)))))"

text \<open>
  The invariant of the loops that fill the table, for the proof: the table has its shape,
  and every entry of column 0, of a row before \<open>i\<close>, and of row \<open>i\<close> before column \<open>j\<close>
  is the distance of the two prefixes.
\<close>

definition dp_shape :: "nat \<Rightarrow> nat \<Rightarrow> int list list \<Rightarrow> bool" where
  "dp_shape m n dp = (length dp = m + 1 \<and> (\<forall>i \<le> m. length (dp ! i) = n + 1))"

definition dp_filled :: "string \<Rightarrow> string \<Rightarrow> nat \<Rightarrow> nat \<Rightarrow> int list list \<Rightarrow> bool" where
  "dp_filled A B i j dp =
     (dp_shape (length A) (length B) dp
      \<and> (\<forall>i' \<le> length A. \<forall>j' \<le> length B.
            (i' < i \<or> (i' = i \<and> j' < j) \<or> j' = 0) \<longrightarrow>
              dp ! i' ! j' = int (levenshteinDistance (take i' A) (take j' B))))"

text \<open>
  A digest function that can be evaluated, for the closed instances below (the theorems
  themselves hold for every \<open>sha\<close>): every byte is the length of the message.
\<close>

definition demo_sha :: sha256 where
  "demo_sha msg i = char_of (length msg)"

text \<open>
  A rounding that can be evaluated, for the same use: to the nearest multiple of
  \<open>2^-53\<close>, which is the rounding to a \<^verbatim>\<open>double\<close> between \<open>1/2\<close> and 1.
\<close>

definition demo_round :: "real \<Rightarrow> real" where
  "demo_round x = real_of_int (round (x * 2 ^ 53)) / 2 ^ 53"

text \<open>File systems and stores for the closed instances.\<close>

definition fs_foo :: filesys where
  "fs_foo = \<lparr>files = [(''a.txt'', ''foo'')], unreadable = {}, unwritable = {}\<rparr>"

definition fs_twins :: filesys where
  "fs_twins =
     \<lparr>files = [(''a.txt'', ''x\<newline>''), (''b.txt'', ''x\<newline>'')],
      unreadable = {}, unwritable = {}\<rparr>"



definition fs_foos :: filesys where
  "fs_foos = \<lparr>files = [(''a.txt'', ''foo''), (''b.txt'', ''foo'')], unreadable = {}, unwritable = {}\<rparr>"

definition st_held :: ObjectStore where
  "st_held =
     \<lparr>storePath = ''store'',
      objectPool = \<lparr>pool = [(hashStream (demo_sha ''foo\<newline>''), ''foo\<newline>'')], maxSize = 2000\<rparr>,
      hashToPath = [(hashStream (demo_sha ''foo\<newline>''), ''a.txt'')]\<rparr>"

definition fs_held :: filesys where
  "fs_held =
     \<lparr>files = [(''a.txt'', ''foo''), (''b.txt'', ''foo''),
               (''store/'' @ take 2 (hashStream (demo_sha ''foo\<newline>'')) @ ''/''
                  @ drop 2 (hashStream (demo_sha ''foo\<newline>'')), ''foo\<newline>'')],
      unreadable = {}, unwritable = {}\<rparr>"

definition fs_orig :: filesys where
  "fs_orig = \<lparr>files = [(''orig.txt'', ''old'')], unreadable = {}, unwritable = {}\<rparr>"

definition st_recorded :: ObjectStore where
  "st_recorded =
     \<lparr>storePath = ''store'', objectPool = \<lparr>pool = [(''abcd'', ''foo'')], maxSize = 2000\<rparr>,
      hashToPath = [(''abcd'', ''orig.txt'')]\<rparr>"

definition fs_blob :: filesys where
  "fs_blob = \<lparr>files = [(''store/ab/cd'', ''bar'')], unreadable = {}, unwritable = {}\<rparr>"

section \<open>Properties of the diff engine\<close>

text \<open>
  C2. \<^verbatim>\<open>compareFiles\<close> classifies every pair of optional files by the rules: both absent
  gives \<open>UNCHANGED\<close> with the empty path and empty hashes, and reads no object; old absent
  gives \<open>ADDED\<close> with the new file's hash as \<open>newHash\<close>; new absent gives \<open>REMOVED\<close>;
  both present gives \<open>UNCHANGED\<close> when the two hashes are equal and \<open>MODIFIED\<close> when they
  differ.
\<close>

theorem compareFiles_classifies:
  "fst (compareFiles sha None None) = \<lparr>type = UNCHANGED, path = [], oldHash = [], newHash = []\<rparr>
   \<and> fst (compareFiles sha None (Some n)) =
       \<lparr>type = ADDED, path = filepath n, oldHash = [], newHash = fst (getHash sha n)\<rparr>
   \<and> fst (compareFiles sha (Some old) None) =
       \<lparr>type = REMOVED, path = filepath old, oldHash = fst (getHash sha old), newHash = []\<rparr>
   \<and> fst (compareFiles sha (Some old) (Some n)) =
       \<lparr>type = (if fst (getHash sha old) = fst (getHash sha n) then UNCHANGED else MODIFIED),
        path = filepath old, oldHash = fst (getHash sha old), newHash = fst (getHash sha n)\<rparr>"
  by (simp add: compareFiles_def split: prod.splits)

text \<open>
  C5, as the claim states it, fails: the diff of \<open>["foo", "bar"]\<close> and \<open>["foo", "baz"]\<close>
  is not the three lines alone, because \<^verbatim>\<open>computeDiff\<close> starts its result with the two
  header lines \<^verbatim>\<open>--- old\<close> and \<^verbatim>\<open>+++ new\<close>.
\<close>

theorem computeDiff_foo_bar_baz_not_bare:
  "computeDiff [''foo'', ''bar''] [''foo'', ''baz''] \<noteq> ['' foo'', ''-bar'', ''+baz'']"
  by (simp add: computeDiff_def)

text \<open>
  C5, amended: for the lines \<open>["foo", "bar"]\<close> and \<open>["foo", "baz"]\<close> the line diff is the
  two header lines followed by exactly \<open>" foo"\<close>, \<open>"-bar"\<close>, \<open>"+baz"\<close>, in that order.
\<close>

theorem computeDiff_foo_bar_baz:
  "computeDiff [''foo'', ''bar''] [''foo'', ''baz''] =
     [''--- old'', ''+++ new'', '' foo'', ''-bar'', ''+baz'']"
  by (simp add: computeDiff_def)

section \<open>Properties of the similarity score\<close>

subsection \<open>The edit distance\<close>

lemma lev_Nil2 [simp]: "levenshteinDistance xs [] = length xs"
  by (cases xs) auto

lemma lev_sym: "levenshteinDistance xs ys = levenshteinDistance ys xs"
  by (induction xs ys rule: levenshteinDistance.induct) (auto simp: min.commute eq_commute)

lemma lev_le_max: "levenshteinDistance xs ys \<le> max (length xs) (length ys)"
  by (induction xs ys rule: levenshteinDistance.induct) auto

lemma lev_refl: "levenshteinDistance xs xs = 0"
  by (induction xs) auto

lemma lev_lower: "length xs \<le> levenshteinDistance xs ys + length ys"
  by (induction xs ys rule: levenshteinDistance.induct) auto

lemma lev_snoc_right_le: "levenshteinDistance xs ys \<le> levenshteinDistance xs (ys @ [y]) + 1"
proof (induction xs ys rule: levenshteinDistance.induct)
  case (1 ys)
  then show ?case by simp
next
  case (2 v va)
  have "length (v # va) \<le> levenshteinDistance (v # va) [y] + length [y]"
    by (rule lev_lower)
  then show ?case by simp
next
  case (3 x xs y' ys)
  then show ?case by (auto simp: min_def)
qed

lemma lev_snoc_left_le: "levenshteinDistance xs ys \<le> levenshteinDistance (xs @ [x]) ys + 1"
  using lev_snoc_right_le[of ys xs x] by (simp add: lev_sym)

lemma lev_snoc_Nil: "levenshteinDistance [x] (ys @ [y]) =
    min (min (levenshteinDistance [] (ys @ [y]) + 1) (levenshteinDistance [x] ys + 1))
        (levenshteinDistance [] ys + (if x = y then 0 else 1))"
  by (induction ys) (auto simp: min_def)

lemma lev_Nil_snoc: "levenshteinDistance (xs @ [x]) [y] =
    min (min (levenshteinDistance xs [y] + 1) (levenshteinDistance (xs @ [x]) [] + 1))
        (levenshteinDistance xs [] + (if x = y then 0 else 1))"
  using lev_snoc_Nil[of y xs x] by (simp add: lev_sym[of _ "[y]"] min.commute eq_commute lev_sym[of _ "[]"])

text \<open>
  The distance is defined from the heads of the strings and the table is filled from
  their ends: the same recurrence holds at the end. The nine distances of the next
  smaller pairs appear on both sides.
\<close>

lemma min_nine_terms:
  fixes u :: nat
  shows "min (min (min (min (a1 + u) (a2 + u)) (a3 + d) + u) (min (min (b1 + u) (b2 + u)) (b3 + d) + u))
          (min (min (c1 + u) (c2 + u)) (c3 + d) + e)
      = min (min (min (min (a1 + u) (b1 + u)) (c1 + e) + u) (min (min (a2 + u) (b2 + u)) (c2 + e) + u))
          (min (min (a3 + u) (b3 + u)) (c3 + e) + d)"
  apply (simp only: min_add_distrib_left)
  apply (rule antisym)
   apply (simp add: min_le_iff_disj)
  apply (simp add: min_le_iff_disj)
  done

lemma lev_snoc:
  "levenshteinDistance (xs @ [x]) (ys @ [y]) =
     min (min (levenshteinDistance xs (ys @ [y]) + 1) (levenshteinDistance (xs @ [x]) ys + 1))
         (levenshteinDistance xs ys + (if x = y then 0 else 1))"
proof (induction xs ys rule: levenshteinDistance.induct)
  case (1 ys)
  show ?case using lev_snoc_Nil[of x ys y] by simp
next
  case (2 v va)
  show ?case using lev_Nil_snoc[of "v # va" x y] by simp
next
  case (3 x' xs y' ys)
  let ?L = levenshteinDistance
  define a1 where "a1 = ?L xs (y' # ys @ [y])"
  define a2 where "a2 = ?L (xs @ [x]) (y' # ys)"
  define a3 where "a3 = ?L xs (y' # ys)"
  define b1 where "b1 = ?L (x' # xs) (ys @ [y])"
  define b2 where "b2 = ?L (x' # xs @ [x]) ys"
  define b3 where "b3 = ?L (x' # xs) ys"
  define c1 where "c1 = ?L xs (ys @ [y])"
  define c2 where "c2 = ?L (xs @ [x]) ys"
  define c3 where "c3 = ?L xs ys"
  define d where "d = (if x = y then 0 else 1::nat)"
  define e where "e = (if x' = y' then 0 else 1::nat)"
  have i1: "?L (xs @ [x]) (y' # ys @ [y]) = min (min (a1 + 1) (a2 + 1)) (a3 + d)"
    using "3.IH"(1) by (simp add: a1_def a2_def a3_def d_def)
  have i2: "?L (x' # xs @ [x]) (ys @ [y]) = min (min (b1 + 1) (b2 + 1)) (b3 + d)"
    using "3.IH"(2) by (simp add: b1_def b2_def b3_def d_def)
  have i3: "?L (xs @ [x]) (ys @ [y]) = min (min (c1 + 1) (c2 + 1)) (c3 + d)"
    using "3.IH"(3) by (simp add: c1_def c2_def c3_def d_def)
  have lhs: "?L ((x' # xs) @ [x]) ((y' # ys) @ [y]) =
      min (min (min (min (a1 + 1) (a2 + 1)) (a3 + d) + 1) (min (min (b1 + 1) (b2 + 1)) (b3 + d) + 1))
          (min (min (c1 + 1) (c2 + 1)) (c3 + d) + e)"
    by (simp add: i1 i2 i3 e_def)
  have r1: "?L (x' # xs) ((y' # ys) @ [y]) = min (min (a1 + 1) (b1 + 1)) (c1 + e)"
    by (simp add: a1_def b1_def c1_def e_def)
  have r2: "?L ((x' # xs) @ [x]) (y' # ys) = min (min (a2 + 1) (b2 + 1)) (c2 + e)"
    by (simp add: a2_def b2_def c2_def e_def)
  have r3: "?L (x' # xs) (y' # ys) = min (min (a3 + 1) (b3 + 1)) (c3 + e)"
    by (simp add: a3_def b3_def c3_def e_def)
  have "min (min (min (min (a1 + 1) (a2 + 1)) (a3 + d) + 1) (min (min (b1 + 1) (b2 + 1)) (b3 + d) + 1))
          (min (min (c1 + 1) (c2 + 1)) (c3 + d) + e)
      = min (min (min (min (a1 + 1) (b1 + 1)) (c1 + e) + 1) (min (min (a2 + 1) (b2 + 1)) (c2 + e) + 1))
          (min (min (a3 + 1) (b3 + 1)) (c3 + e) + d)"
    by (rule min_nine_terms)
  then show ?case
    by (simp only: lhs r1 r2 r3 d_def[symmetric])
qed

subsection \<open>The table\<close>

lemma to_int_small: "k < 2 ^ 31 \<Longrightarrow> to_int k = int k"
proof -
  assume "k < 2 ^ 31"
  then have "int k < 2 ^ 31" by (metis of_nat_less_iff of_nat_numeral of_nat_power)
  then have "signed_take_bit 31 (int k) = int k"
    by (intro signed_take_bit_int_eq_self) simp_all
  then show ?thesis by (simp add: to_int_def signed_of_nat)
qed

lemma lev_prefix_step:
  assumes "i < length A" and "j < length B"
  shows "int (levenshteinDistance (take (Suc i) A) (take (Suc j) B)) =
           (if A ! i = B ! j then int (levenshteinDistance (take i A) (take j B))
            else 1 + min (int (levenshteinDistance (take i A) (take (Suc j) B)))
                      (min (int (levenshteinDistance (take (Suc i) A) (take j B)))
                           (int (levenshteinDistance (take i A) (take j B)))))"
proof -
  let ?L = levenshteinDistance
  let ?xs = "take i A" and ?ys = "take j B"
  have tA: "take (Suc i) A = ?xs @ [A ! i]" and tB: "take (Suc j) B = ?ys @ [B ! j]"
    using assms by (simp_all add: take_Suc_conv_app_nth)
  have rec: "?L (?xs @ [A ! i]) (?ys @ [B ! j]) =
      min (min (?L ?xs (?ys @ [B ! j]) + 1) (?L (?xs @ [A ! i]) ?ys + 1))
          (?L ?xs ?ys + (if A ! i = B ! j then 0 else 1))"
    by (rule lev_snoc)
  have le1: "?L ?xs ?ys \<le> ?L ?xs (?ys @ [B ! j]) + 1" by (rule lev_snoc_right_le)
  have le2: "?L ?xs ?ys \<le> ?L (?xs @ [A ! i]) ?ys + 1" by (rule lev_snoc_left_le)
  show ?thesis
  proof (cases "A ! i = B ! j")
    case True
    with rec le1 le2 have "?L (?xs @ [A ! i]) (?ys @ [B ! j]) = ?L ?xs ?ys" by simp
    then have "int (?L (?xs @ [A ! i]) (?ys @ [B ! j])) = int (?L ?xs ?ys)" by simp
    then show ?thesis unfolding tA tB using True by simp
  next
    case False
    with rec have "?L (?xs @ [A ! i]) (?ys @ [B ! j]) =
        1 + min (?L ?xs (?ys @ [B ! j])) (min (?L (?xs @ [A ! i]) ?ys) (?L ?xs ?ys))"
      by (simp add: min_def)
    then have "int (?L (?xs @ [A ! i]) (?ys @ [B ! j])) =
        1 + min (int (?L ?xs (?ys @ [B ! j]))) (min (int (?L (?xs @ [A ! i]) ?ys)) (int (?L ?xs ?ys)))"
      by (simp add: min_def)
    then show ?thesis unfolding tA tB using False by simp
  qed
qed

lemma fold_upt_invariant:
  assumes base: "P a s"
    and step: "\<And>i t. a \<le> i \<Longrightarrow> i < b \<Longrightarrow> P i t \<Longrightarrow> P (Suc i) (f i t)"
    and le: "a \<le> b"
  shows "P b (fold f [a..<b] s)"
proof -
  have "k \<le> b \<Longrightarrow> P k (fold f [a..<k] s)" if "a \<le> k" for k
    using that
  proof (induction k rule: dec_induct)
    case base
    then show ?case using assms(1) by simp
  next
    case (step k)
    then show ?case using assms(2)[of k "fold f [a..<k] s"] by simp
  qed
  with le show ?thesis by simp
qed

lemma dp_set_nth:
  "i < length dp \<Longrightarrow> i' < length dp \<Longrightarrow> j < length (dp ! i) \<Longrightarrow>
     dp_set dp i j v ! i' ! j' = (if i' = i \<and> j' = j then v else dp ! i' ! j')"
  by (simp add: dp_set_def nth_list_update)

lemma dp_set_shape:
  assumes "dp_shape m n dp"
  shows "dp_shape m n (dp_set dp i j v)"
proof -
  have "length (dp[i := (dp ! i)[j := v]] ! k) = n + 1" if "k \<le> m" for k
  proof (cases "k = i")
    case True
    with that assms show ?thesis by (simp add: dp_shape_def)
  next
    case False
    with that assms show ?thesis by (simp add: dp_shape_def)
  qed
  with assms show ?thesis by (simp add: dp_shape_def dp_set_def)
qed

lemma dp_step_filled:
  assumes inv: "dp_filled A B (Suc i) (Suc j) dp"
    and i: "i < length A" and j: "j < length B"
  shows "dp_filled A B (Suc i) (Suc (Suc j)) (dp_step A B (Suc i) (Suc j) dp)"
proof -
  let ?D = "\<lambda>i j. int (levenshteinDistance (take i A) (take j B))"
  let ?m = "length A" and ?n = "length B"
  from inv have shape: "dp_shape ?m ?n dp"
    and cells: "\<And>i' j'. i' \<le> ?m \<Longrightarrow> j' \<le> ?n \<Longrightarrow>
                  i' < Suc i \<or> (i' = Suc i \<and> j' < Suc j) \<or> j' = 0 \<Longrightarrow> dp ! i' ! j' = ?D i' j'"
    unfolding dp_filled_def by blast+
  define v where "v = (if A ! i = B ! j then dp ! i ! j
                       else 1 + min (dp ! i ! Suc j) (min (dp ! Suc i ! j) (dp ! i ! j)))"
  have step: "dp_step A B (Suc i) (Suc j) dp = dp_set dp (Suc i) (Suc j) v"
    by (simp add: dp_step_def v_def)
  have c1: "dp ! i ! j = ?D i j" using i j by (intro cells) simp_all
  have c2: "dp ! i ! Suc j = ?D i (Suc j)" using i j by (intro cells) simp_all
  have c3: "dp ! Suc i ! j = ?D (Suc i) j" using i j by (intro cells) simp_all
  have v: "v = ?D (Suc i) (Suc j)"
    unfolding v_def c1 c2 c3 using lev_prefix_step[OF i j] by simp
  have len: "length dp = ?m + 1" and row: "length (dp ! Suc i) = ?n + 1"
    using shape i by (simp_all add: dp_shape_def)
  have "dp_set dp (Suc i) (Suc j) v ! i' ! j' = ?D i' j'"
    if "i' \<le> ?m" "j' \<le> ?n" "i' < Suc i \<or> (i' = Suc i \<and> j' < Suc (Suc j)) \<or> j' = 0" for i' j'
  proof (cases "i' = Suc i \<and> j' = Suc j")
    case True
    then show ?thesis using len row i j v by (simp add: dp_set_nth)
  next
    case False
    with that have "i' < Suc i \<or> (i' = Suc i \<and> j' < Suc j) \<or> j' = 0" by auto
    from cells[OF that(1,2) this] False that(1) len row i j v show ?thesis
      by (simp add: dp_set_nth)
  qed
  with dp_set_shape[OF shape] show ?thesis
    by (simp add: dp_filled_def step)
qed

lemma dp_filled_next_row:
  assumes "dp_filled A B i (length B + 1) dp"
  shows "dp_filled A B (Suc i) 1 dp"
proof -
  have "i' < i \<or> (i' = i \<and> j' < length B + 1) \<or> j' = 0"
    if "j' \<le> length B" "i' < Suc i \<or> (i' = Suc i \<and> j' < 1) \<or> j' = 0" for i' j' :: nat
    using that by auto
  with assms show ?thesis
    unfolding dp_filled_def by blast
qed

lemma dp_row_filled:
  assumes inv: "dp_filled A B (Suc i) 1 dp" and i: "i < length A"
  shows "dp_filled A B (Suc (Suc i)) 1 (fold (dp_step A B (Suc i)) [1..<length B + 1] dp)"
proof -
  have "dp_filled A B (Suc i) (length B + 1) (fold (dp_step A B (Suc i)) [1..<length B + 1] dp)"
  proof (rule fold_upt_invariant[where P = "\<lambda>j t. dp_filled A B (Suc i) j t"])
    show "dp_filled A B (Suc i) 1 dp" by (rule inv)
  next
    fix j t
    assume "1 \<le> j" and "j < length B + 1" and "dp_filled A B (Suc i) j t"
    then obtain j0 where "j = Suc j0" and "j0 < length B" and "dp_filled A B (Suc i) (Suc j0) t"
      by (cases j) auto
    with dp_step_filled[where i = i and j = j0 and dp = t and A = A and B = B] i show "dp_filled A B (Suc i) (Suc j) (dp_step A B (Suc i) j t)"
      by simp
  qed simp
  then show ?thesis
    by (rule dp_filled_next_row)
qed

lemma dp_all_filled:
  assumes "dp_filled A B 1 1 dp"
  shows "dp_filled A B (length A + 1) 1
           (fold (\<lambda>i dp. fold (dp_step A B i) [1..<length B + 1] dp) [1..<length A + 1] dp)"
proof (rule fold_upt_invariant[where P = "\<lambda>i t. dp_filled A B i 1 t"])
  show "dp_filled A B 1 1 dp" by (rule assms)
next
  fix i t
  assume "1 \<le> i" and "i < length A + 1" and "dp_filled A B i 1 t"
  then obtain i0 where "i = Suc i0" and "i0 < length A" and "dp_filled A B (Suc i0) 1 t"
    by (cases i) auto
  with dp_row_filled[of A B i0 t]
  show "dp_filled A B (Suc i) 1 (fold (dp_step A B i) [1..<length B + 1] t)"
    by simp
qed simp

lemma dp_init_filled:
  "dp_filled A B 1 1
     (fold (\<lambda>j dp. dp_set dp 0 j (int j)) [0..<length B + 1]
        (fold (\<lambda>i dp. dp_set dp i 0 (int i)) [0..<length A + 1]
           (replicate (length A + 1) (replicate (length B + 1) 0))))"
proof -
  let ?m = "length A" and ?n = "length B"
  let ?dp0 = "replicate (?m + 1) (replicate (?n + 1) (0::int))"
  let ?dp1 = "fold (\<lambda>i dp. dp_set dp i 0 (int i)) [0..<?m + 1] ?dp0"
  let ?dp2 = "fold (\<lambda>j dp. dp_set dp 0 j (int j)) [0..<?n + 1] ?dp1"
  have s0: "dp_shape ?m ?n ?dp0"
    unfolding dp_shape_def by (simp add: nth_replicate less_Suc_eq_le del: replicate_Suc)
  have p1: "dp_shape ?m ?n ?dp1 \<and> (\<forall>i < ?m + 1. ?dp1 ! i ! 0 = int i)"
  proof (rule fold_upt_invariant[where P = "\<lambda>k t. dp_shape ?m ?n t \<and> (\<forall>i < k. t ! i ! 0 = int i)"])
    show "dp_shape ?m ?n ?dp0 \<and> (\<forall>i<0. ?dp0 ! i ! 0 = int i)" using s0 by simp
  next
    fix i t
    assume i: "i < ?m + 1" and t: "dp_shape ?m ?n t \<and> (\<forall>k<i. t ! k ! 0 = int k)"
    then have len: "length t = ?m + 1" and row: "length (t ! i) = ?n + 1"
      by (simp_all add: dp_shape_def)
    have "dp_set t i 0 (int i) ! k ! 0 = int k" if "k < Suc i" for k
      using that t i len row by (cases "k = i") (simp_all add: dp_set_nth)
    with t show "dp_shape ?m ?n (dp_set t i 0 (int i)) \<and> (\<forall>k<Suc i. dp_set t i 0 (int i) ! k ! 0 = int k)"
      by (simp add: dp_set_shape)
  qed simp
  have p2: "dp_shape ?m ?n ?dp2 \<and> (\<forall>i \<le> ?m. ?dp2 ! i ! 0 = int i) \<and> (\<forall>j < ?n + 1. ?dp2 ! 0 ! j = int j)"
  proof (rule fold_upt_invariant[where P = "\<lambda>k t. dp_shape ?m ?n t \<and> (\<forall>i \<le> ?m. t ! i ! 0 = int i)
                                          \<and> (\<forall>j < k. t ! 0 ! j = int j)"])
    show "dp_shape ?m ?n ?dp1 \<and> (\<forall>i \<le> ?m. ?dp1 ! i ! 0 = int i) \<and> (\<forall>j<0. ?dp1 ! 0 ! j = int j)"
      using p1 by simp
  next
    fix j t
    assume j: "j < ?n + 1"
      and t: "dp_shape ?m ?n t \<and> (\<forall>i \<le> ?m. t ! i ! 0 = int i) \<and> (\<forall>k<j. t ! 0 ! k = int k)"
    then have len: "length t = ?m + 1" and row: "length (t ! 0) = ?n + 1"
      by (simp_all add: dp_shape_def)
    have a: "dp_set t 0 j (int j) ! i ! 0 = int i" if "i \<le> ?m" for i
      using that t j len row by (cases "i = 0 \<and> j = 0") (auto simp: dp_set_nth)
    have b: "dp_set t 0 j (int j) ! 0 ! k = int k" if "k < Suc j" for k
      using that t j len row by (cases "k = j") (simp_all add: dp_set_nth)
    from a b t show "dp_shape ?m ?n (dp_set t 0 j (int j))
        \<and> (\<forall>i \<le> ?m. dp_set t 0 j (int j) ! i ! 0 = int i)
        \<and> (\<forall>k<Suc j. dp_set t 0 j (int j) ! 0 ! k = int k)"
      by (simp add: dp_set_shape)
  qed simp
  have "?dp2 ! i' ! j' = int (levenshteinDistance (take i' A) (take j' B))"
    if "i' \<le> ?m" "j' \<le> ?n" "i' < 1 \<or> (i' = 1 \<and> j' < 1) \<or> j' = 0" for i' j'
  proof (cases "j' = 0")
    case True
    with that p2 show ?thesis by simp
  next
    case False
    with that have "i' = 0" by auto
    with that p2 show ?thesis by simp
  qed
  with p2 show ?thesis
    unfolding dp_filled_def by blast
qed

lemma edit_table_filled:
  "dp_filled A B (length A + 1) 1 (edit_table A B (length A) (length B))"
  unfolding edit_table_def Let_def
  by (rule dp_all_filled) (rule dp_init_filled)

lemma edit_table_distance:
  "edit_table A B (length A) (length B) ! length A ! length B = int (levenshteinDistance A B)"
  using edit_table_filled[of A B] by (simp add: dp_filled_def)

lemma edit_table_bounds:
  assumes "i \<le> length A" and "j \<le> length B"
  shows "0 \<le> edit_table A B (length A) (length B) ! i ! j
         \<and> edit_table A B (length A) (length B) ! i ! j \<le> int (max (length A) (length B))"
proof -
  from edit_table_filled[of A B] assms
  have "edit_table A B (length A) (length B) ! i ! j = int (levenshteinDistance (take i A) (take j B))"
    by (simp add: dp_filled_def)
  moreover have "levenshteinDistance (take i A) (take j B) \<le> max i j"
    using lev_le_max[of "take i A" "take j B"] assms by (simp add: min_absorb2)
  then have "levenshteinDistance (take i A) (take j B) \<le> max (length A) (length B)"
    using assms by (simp add: max_def split: if_splits)
  ultimately show ?thesis by simp
qed

lemma calculateSimilarity_in_range:
  assumes A: "length A < 2 ^ 31 - 1" and B: "length B < 2 ^ 31 - 1"
    and mem: "(length A + 1) * (length B + 1) \<le> heap"
  shows "calculateSimilarity rnd heap A B = Inr (spec_similarity rnd A B)"
proof -
  have mA: "to_int (length A) = int (length A)" and mB: "to_int (length B) = int (length B)"
    using A B by (simp_all add: to_int_small)
  have nmax: "int (length A) \<noteq> INT_MAX" "int (length B) \<noteq> INT_MAX"
    using A B by (simp_all add: INT_MAX_def)
  show ?thesis
  proof (cases "A = [] \<or> B = []")
    case True
    then show ?thesis by (auto simp: calculateSimilarity_def spec_similarity_def mA mB Let_def)
  next
    case False
    then have "length A \<noteq> 0" "length B \<noteq> 0" by simp_all
    moreover have "max (int (length A)) (int (length B)) = int (max (length A) (length B))"
      by simp
    moreover have "nat (int (length A) + 1) * nat (int (length B) + 1)
                     = (length A + 1) * (length B + 1)"
      by (simp add: nat_add_distrib)
    with mem have "\<not> heap < nat (int (length A) + 1) * nat (int (length B) + 1)"
      by simp
    ultimately show ?thesis using False nmax
      by (simp add: calculateSimilarity_def spec_similarity_def mA mB Let_def
          edit_table_distance)
  qed
qed

lemma spec_similarity_bounds:
  assumes mono: "\<And>x y. x \<le> y \<Longrightarrow> rnd x \<le> rnd y" and r0: "rnd 0 = 0" and r1: "rnd 1 = 1"
  shows "0 \<le> spec_similarity rnd A B \<and> spec_similarity rnd A B \<le> 1"
proof (cases "A = [] \<or> B = []")
  case True
  then show ?thesis by (auto simp: spec_similarity_def)
next
  case False
  let ?q = "real (levenshteinDistance A B) / real (max (length A) (length B))"
  from False have "0 < length A" by simp
  then have "0 < max (length A) (length B)" by (simp add: less_max_iff_disj)
  then have pos: "0 < real (max (length A) (length B))" by (simp only: of_nat_0_less_iff)
  have "real (levenshteinDistance A B) \<le> real (max (length A) (length B))"
    using lev_le_max[of A B] by (simp only: of_nat_le_iff)
  with pos have q1: "?q \<le> 1" by (simp only: divide_le_eq_1_pos)
  have q0: "0 \<le> ?q" by simp
  have "rnd 0 \<le> rnd ?q" using q0 by (rule mono)
  moreover have "rnd ?q \<le> rnd 1" using q1 by (rule mono)
  ultimately have d0: "0 \<le> 1 - rnd ?q" and d1: "1 - rnd ?q \<le> 1" using r0 r1 by simp_all
  have "rnd 0 \<le> rnd (1 - rnd ?q)" using d0 by (rule mono)
  moreover have "rnd (1 - rnd ?q) \<le> rnd 1" using d1 by (rule mono)
  ultimately show ?thesis using r0 r1 False
    by (simp add: spec_similarity_def)
qed

lemma spec_similarity_sym: "spec_similarity rnd A B = spec_similarity rnd B A"
  by (auto simp: spec_similarity_def lev_sym[of A B] max.commute)

lemma demo_round_mono: "x \<le> y \<Longrightarrow> demo_round x \<le> demo_round y"
proof -
  assume "x \<le> y"
  then have "x * 2 ^ 53 \<le> y * 2 ^ 53" by simp
  then have "round (x * 2 ^ 53) \<le> round (y * 2 ^ 53)" by (rule round_mono)
  then show ?thesis by (simp add: demo_round_def divide_right_mono)
qed

lemma demo_round_0_1: "demo_round 0 = 0 \<and> demo_round 1 = 1"
  by (simp add: demo_round_def)

subsection \<open>The score\<close>

text \<open>
  C6, as the claim states it, fails for a string too long for \<^verbatim>\<open>int\<close>: a string of
  \<open>2^32\<close> characters has the length 0 once it is narrowed, so against the empty string
  the code answers 1.0 where exactly one empty string is to give 0.0, whatever the
  rounding and the memory.
\<close>

theorem calculateSimilarity_wraps_length:
  "\<forall>rnd heap.
     calculateSimilarity rnd heap (replicate 4294967296 (CHR ''a'')) [] = Inr 1
     \<and> spec_similarity rnd (replicate 4294967296 (CHR ''a'')) [] = 0"
proof -
  have "to_int (length (replicate 4294967296 (CHR ''a''))) = 0"
    by (simp only: length_replicate) (simp add: to_int_def)
  moreover have "replicate 4294967296 (CHR ''a'') \<noteq> []"
    by (simp only: replicate_empty)
  ultimately show ?thesis
    by (simp only: calculateSimilarity_def spec_similarity_def Let_def) (simp add: to_int_def)
qed

text \<open>
  C6, amended: for all strings \<open>A\<close> and \<open>B\<close> of fewer than \<open>2^31 - 1\<close> characters whose
  table of \<open>(len(A) + 1) * (len(B) + 1)\<close> cells can be allocated,
  \<^verbatim>\<open>calculateSimilarity(A, B)\<close> is \<open>1 - levenshteinDistance(A, B) / max(len(A), len(B))\<close>
  computed in \<^verbatim>\<open>double\<close> arithmetic (the quotient rounded to a double, then the
  difference rounded to a double) for the standard edit distance with unit costs, with
  1.0 for two empty strings and 0.0 for exactly one empty string; the function is
  symmetric, and its values at \<open>("", "")\<close> and \<open>("", "abc")\<close> are 1.0 and 0.0. For a
  rounding that is monotone and leaves 0 and 1 as they are, as the rounding to the nearest
  double does, the result lies between 0 and 1 and the value at \<open>("abc", "abc")\<close> is 1.0.
\<close>

theorem calculateSimilarity_normalized_levenshtein:
  assumes "length A < 2 ^ 31 - 1" and "length B < 2 ^ 31 - 1"
    and "(length A + 1) * (length B + 1) \<le> heap"
  shows "calculateSimilarity rnd heap A B = Inr (spec_similarity rnd A B)
         \<and> calculateSimilarity rnd heap A B = calculateSimilarity rnd heap B A
         \<and> calculateSimilarity rnd heap [] [] = Inr 1
         \<and> calculateSimilarity rnd heap [] ''abc'' = Inr 0
         \<and> (mono rnd \<and> rnd 0 = 0 \<and> rnd 1 = 1 \<longrightarrow>
               0 \<le> spec_similarity rnd A B \<and> spec_similarity rnd A B \<le> 1
               \<and> (16 \<le> heap \<longrightarrow> calculateSimilarity rnd heap ''abc'' ''abc'' = Inr 1))"
proof -
  have ab: "calculateSimilarity rnd heap A B = Inr (spec_similarity rnd A B)"
    using assms by (simp add: calculateSimilarity_in_range)
  have "(length B + 1) * (length A + 1) \<le> heap"
    using assms(3) by (simp add: mult.commute)
  then have ba: "calculateSimilarity rnd heap B A = Inr (spec_similarity rnd B A)"
    using assms by (simp add: calculateSimilarity_in_range)
  have e1: "calculateSimilarity rnd heap [] [] = Inr 1"
    and e2: "calculateSimilarity rnd heap [] ''abc'' = Inr 0"
    by (simp_all add: calculateSimilarity_def to_int_def Let_def)
  have e3: "calculateSimilarity rnd heap ''abc'' ''abc'' = Inr 1"
    if "rnd 0 = 0" "rnd 1 = 1" "16 \<le> heap"
    using that by (simp add: calculateSimilarity_in_range spec_similarity_def lev_refl)
  have bd: "0 \<le> spec_similarity rnd A B \<and> spec_similarity rnd A B \<le> 1"
    if "mono rnd" "rnd 0 = 0" "rnd 1 = 1"
    using that by (intro spec_similarity_bounds) (auto dest: monoD)
  from ab ba e1 e2 e3 bd spec_similarity_sym[of rnd A B]
  show ?thesis by auto
qed

text \<open>
  An instance, where rounding to a double changes nothing: the distance is 2, the longer
  length 4, and \<open>1/2\<close> is a double.
\<close>

theorem calculateSimilarity_normalized_levenshtein_witness:
  "length ''flaw'' < 2 ^ 31 - 1 \<and> length ''lawn'' < 2 ^ 31 - 1
   \<and> (length ''flaw'' + 1) * (length ''lawn'' + 1) \<le> (25::nat)
   \<and> mono demo_round \<and> demo_round 0 = 0 \<and> demo_round 1 = 1
   \<and> levenshteinDistance ''flaw'' ''lawn'' = 2
   \<and> calculateSimilarity demo_round 25 ''flaw'' ''lawn'' = Inr (1 / 2)
   \<and> calculateSimilarity demo_round 25 ''lawn'' ''flaw'' = Inr (1 / 2)
   \<and> calculateSimilarity demo_round 25 ''abc'' ''abc'' = Inr 1"
proof -
  have a: "length ''flaw'' < 2 ^ 31 - 1" and b: "length ''lawn'' < 2 ^ 31 - 1" by simp_all
  have m: "(length ''flaw'' + 1) * (length ''lawn'' + 1) \<le> (25::nat)" by simp
  have mono: "mono demo_round"
    by (rule monoI) (rule demo_round_mono)
  have r01: "demo_round 0 = 0" "demo_round 1 = 1" using demo_round_0_1 by simp_all
  have d: "levenshteinDistance ''flaw'' ''lawn'' = 2" by simp
  note t = calculateSimilarity_normalized_levenshtein[OF a b m, of demo_round]
  from t have c1: "calculateSimilarity demo_round 25 ''flaw'' ''lawn''
                     = Inr (spec_similarity demo_round ''flaw'' ''lawn'')"
    by (rule conjunct1)
  from t have c2: "calculateSimilarity demo_round 25 ''flaw'' ''lawn''
                     = calculateSimilarity demo_round 25 ''lawn'' ''flaw''"
    by blast
  from t mono r01 have c5: "calculateSimilarity demo_round 25 ''abc'' ''abc'' = Inr 1"
    by simp
  have "demo_round (1 / 2) = 1 / 2" by (simp add: demo_round_def)
  then have "demo_round (1 - demo_round (1 / 2)) = 1 / 2" by (simp only:) (simp add: demo_round_def)
  then have s: "spec_similarity demo_round ''flaw'' ''lawn'' = 1 / 2"
    unfolding spec_similarity_def by (simp del: divide_eq_eq_numeral1)
  from c1 s have c3: "calculateSimilarity demo_round 25 ''flaw'' ''lawn'' = Inr (1 / 2)" by simp
  with c2 have c4: "calculateSimilarity demo_round 25 ''lawn'' ''flaw'' = Inr (1 / 2)" by simp
  from a b m mono r01 d c3 c4 c5 show ?thesis by blast
qed

section \<open>Properties of the file objects\<close>

text \<open>
  C3 fails on the code: a hash request does not load the content. For every file system
  and every path, the object the factory creates answers \<^verbatim>\<open>getHash()\<close> with the digest
  of the empty message, whatever the backing file holds, and its lines (or data) stay
  empty. (The other half of the claim holds: \<open>getHash_cached\<close> and \<open>getHash_dirty\<close>.)
\<close>

theorem getHash_fresh_object:
  "getHash sha (createFileObject fs p) =
     (hashStream (sha []),
      (createFileObject fs p)\<lparr>hash := hashStream (sha []), isModified := False\<rparr>)"
  by (simp add: getHash_def createFileObject_def TextFile_new_def BinaryFile_new_def
      computeHash_def join_lines_def Let_def)

lemma getHash_cached:
  "hash obj \<noteq> [] \<Longrightarrow> \<not> isModified obj \<Longrightarrow> getHash sha obj = (hash obj, obj)"
  by (simp add: getHash_def)

lemma getHash_dirty:
  "isModified obj \<Longrightarrow>
     getHash sha obj =
       (computeHash sha obj, obj\<lparr>hash := computeHash sha obj, isModified := False\<rparr>)"
  by (simp add: getHash_def Let_def)

text \<open>The digest is never empty or partial: 64 characters.\<close>

lemma length_hashStream: "length (hashStream d) = 64"
  by (simp add: hashStream_def SHA256_DIGEST_LENGTH_def length_concat comp_def hex_byte_def sum_list_triv)

lemma getHash_filepath: "filepath (snd (getHash sha obj)) = filepath obj"
  by (simp add: getHash_def Let_def)

lemma getHash_variant: "variant (snd (getHash sha obj)) = variant obj"
  by (simp add: getHash_def Let_def)

text \<open>What \<^verbatim>\<open>readContent\<close> makes of a text file: the lines, and the bytes it returns.\<close>

lemma getline_loop_no_lf:
  "CHR 0x0A \<notin> set line \<Longrightarrow> l \<in> set (getline_loop line bytes) \<Longrightarrow> CHR 0x0A \<notin> set l"
  by (induction line bytes rule: getline_loop.induct) (auto split: if_splits)

lemma getline_loop_line:
  "CHR 0x0A \<notin> set l \<Longrightarrow>
     getline_loop line (l @ CHR 0x0A # rest) = (line @ l) # getline_loop [] rest"
  by (induction l arbitrary: line) auto

lemma getline_loop_join_lines:
  "\<forall>l \<in> set ls. CHR 0x0A \<notin> set l \<Longrightarrow> getline_loop [] (join_lines ls) = ls"
proof (induction ls)
  case Nil
  then show ?case by (simp add: join_lines_def)
next
  case (Cons l ls)
  then have "getline_loop [] (l @ CHR 0x0A # join_lines ls) = ([] @ l) # getline_loop [] (join_lines ls)"
    by (intro getline_loop_line) simp
  with Cons show ?case by (simp add: join_lines_def)
qed

lemma join_lines_canonical:
  "join_lines (getline_loop [] (join_lines (getline_loop [] bytes))) = join_lines (getline_loop [] bytes)"
  using getline_loop_join_lines[of "getline_loop [] bytes"] getline_loop_no_lf[of "[]" _ bytes]
  by auto

lemma join_getline_acc:
  "join_lines (getline_loop line bytes) =
     (if line @ bytes = [] \<or> (bytes \<noteq> [] \<and> last bytes = CHR 0x0A) \<or> (bytes = [] \<and> line = []) then line @ bytes
      else line @ bytes @ [CHR 0x0A])"
  apply (induction line bytes rule: getline_loop.induct)
   apply (auto simp: join_lines_def split: if_splits)
  done

lemma canonical_bytes:
  "join_lines (getline_loop [] bytes) =
     (if bytes = [] \<or> last bytes = CHR 0x0A then bytes else bytes @ [CHR 0x0A])"
  by (simp add: join_getline_acc)

lemma readContent_result:
  assumes "open_read fs (filepath obj) = Some bytes"
  shows "\<exists>obj'. readContent fs obj =
            Inr (if isBinary obj then bytes else join_lines (getline_loop [] bytes), obj')
          \<and> filepath obj' = filepath obj"
  using assms
  by (auto simp: readContent_def isBinary_def Let_def split: variant.splits)


text \<open>
  Which files load as the same lines: those with the same bytes once a line feed is put
  after an unterminated last line. So two files load as the same lines only if their
  bytes are equal or differ in one final line feed.
\<close>

lemma same_lines_iff:
  "getline_loop [] bytes1 = getline_loop [] bytes2 \<longleftrightarrow>
     (if bytes1 = [] \<or> last bytes1 = CHR 0x0A then bytes1 else bytes1 @ [CHR 0x0A])
     = (if bytes2 = [] \<or> last bytes2 = CHR 0x0A then bytes2 else bytes2 @ [CHR 0x0A])"
proof -
  have again: "getline_loop [] (join_lines (getline_loop [] b)) = getline_loop [] b" for b
    using getline_loop_join_lines[of "getline_loop [] b"] getline_loop_no_lf[of "[]" _ b]
    by auto
  have "getline_loop [] bytes1 = getline_loop [] bytes2 \<longleftrightarrow>
          join_lines (getline_loop [] bytes1) = join_lines (getline_loop [] bytes2)"
    using again[of bytes1] again[of bytes2] by metis
  then show ?thesis by (simp only: canonical_bytes)
qed


text \<open>The same two objects, for any digest function: the digests of different messages.\<close>

lemma crlf_twin_messages:
  "fst (getHash sha ((TextFile_new ''lf.txt'')\<lparr>variant := TextFile [[CHR ''f'']] ''UTF-8''\<rparr>))
     = hashStream (sha [CHR ''f'', CHR 0x0A])
   \<and> fst (getHash sha
           ((TextFile_new ''crlf.txt'')\<lparr>variant := TextFile [[CHR ''f'', CHR 0x0D]] ''UTF-8''\<rparr>))
     = hashStream (sha [CHR ''f'', CHR 0x0D, CHR 0x0A])"
  by (simp add: TextFile_new_def getHash_def computeHash_def join_lines_def Let_def)



text \<open>
  C9 fails on the code for text files: a successful \<^verbatim>\<open>TextFile::writeContent\<close> persists
  the bytes and marks the object dirty, but leaves \<open>lines\<close> as they were, so the next
  \<^verbatim>\<open>getHash()\<close> is the digest of the old lines, not of the bytes written.
  \<^verbatim>\<open>BinaryFile::writeContent\<close> does update \<open>data\<close> (\<open>writeContent_binary\<close>).
\<close>

theorem writeContent_text_keeps_lines:
  assumes "writeContent fs bytes obj = Inr (obj', fs')"
    and "variant obj = TextFile ls enc"
  shows "map_of (files fs') (filepath obj) = Some bytes
         \<and> isModified obj'
         \<and> variant obj' = TextFile ls enc
         \<and> fst (getHash sha obj') = hashStream (sha (join_lines ls))"
  using assms
  by (auto simp: writeContent_def open_write_def open_read_def getHash_def computeHash_def
      Let_def update_conv' split: option.splits if_splits)

theorem writeContent_text_keeps_lines_witness:
  "\<exists>obj' fs'.
     writeContent fs_foo ''bar\<newline>'' (TextFile_new ''a.txt'') = Inr (obj', fs')
     \<and> variant (TextFile_new ''a.txt'') = TextFile [] ''UTF-8''
     \<and> map_of (files fs') ''a.txt'' = Some ''bar\<newline>''
     \<and> isModified obj'
     \<and> variant obj' = TextFile [] ''UTF-8''
     \<and> fst (getHash demo_sha obj') = hashStream (demo_sha [])"
proof -
  have v: "variant (TextFile_new ''a.txt'') = TextFile [] ''UTF-8''"
    by (simp add: TextFile_new_def)
  obtain obj' fs' where w: "writeContent fs_foo ''bar\<newline>'' (TextFile_new ''a.txt'') = Inr (obj', fs')"
    by (simp add: writeContent_def open_write_def fs_foo_def TextFile_new_def)
  from writeContent_text_keeps_lines[OF w v, of demo_sha] w v show ?thesis
    by (simp add: join_lines_def TextFile_new_def)
qed

lemma writeContent_binary:
  assumes "writeContent fs bytes obj = Inr (obj', fs')"
    and "variant obj = BinaryFile d"
  shows "map_of (files fs') (filepath obj) = Some bytes
         \<and> isModified obj'
         \<and> variant obj' = BinaryFile bytes
         \<and> fst (getHash sha obj') = hashStream (sha bytes)"
  using assms
  by (auto simp: writeContent_def open_write_def getHash_def computeHash_def
      Let_def update_conv' split: option.splits if_splits)

section \<open>Properties of the object store\<close>

lemma map_assign_length: "length (map_assign k v m) \<le> Suc (length m)"
  by (induction m) auto

lemma StoragePool_store_size:
  assumes "0 < maxSize p" "length (pool p) \<le> maxSize p" "StoragePool_store k v p = Some p'"
  shows "maxSize p' = maxSize p \<and> length (pool p') \<le> maxSize p'"
proof (cases "length (pool p) \<ge> maxSize p")
  case True
  with assms obtain e rest where pr: "pool p = e # rest"
    by (cases "pool p") auto
  with True assms have "p' = p\<lparr>pool := map_assign k v rest\<rparr>"
    by (simp add: StoragePool_store_def)
  moreover have "length (map_assign k v rest) \<le> Suc (length rest)"
    by (rule map_assign_length)
  ultimately show ?thesis using pr assms by simp
next
  case False
  with assms have "p' = p\<lparr>pool := map_assign k v (pool p)\<rparr>"
    by (simp add: StoragePool_store_def)
  moreover have "length (map_assign k v (pool p)) \<le> Suc (length (pool p))"
    by (rule map_assign_length)
  ultimately show ?thesis using False by simp
qed

lemma reconstruct_store: "reconstruct st fs h c = (r, st', fs') \<Longrightarrow> st' = st"
  by (auto simp: reconstruct_def Let_def split: sum.splits prod.splits)

lemma storeObject_objectPool:
  "storeObject sha st fs obj = (r, obj', st', fs') \<Longrightarrow>
     objectPool st' = objectPool st
     \<or> (\<exists>k v. StoragePool_store k v (objectPool st) = Some (objectPool st'))"
  by (auto simp: storeObject_def Let_def
      split: sum.splits prod.splits option.splits bool.splits)

lemma retrieveObject_objectPool:
  "retrieveObject st fs h = (r, st', fs') \<Longrightarrow>
     objectPool st' = objectPool st
     \<or> (\<exists>k v. StoragePool_store k v (objectPool st) = Some (objectPool st'))"
  by (auto simp: retrieveObject_def Let_def
      split: sum.splits prod.splits option.splits if_splits dest!: reconstruct_store)

lemma storeObject_pool:
  assumes "0 < maxSize (objectPool st)"
    and "length (pool (objectPool st)) \<le> maxSize (objectPool st)"
    and "storeObject sha st fs obj = (r, obj', st', fs')"
  shows "maxSize (objectPool st') = maxSize (objectPool st)
         \<and> length (pool (objectPool st')) \<le> maxSize (objectPool st')"
  using storeObject_objectPool[OF assms(3)] assms(1,2) StoragePool_store_size
  by metis

lemma retrieveObject_pool:
  assumes "0 < maxSize (objectPool st)"
    and "length (pool (objectPool st)) \<le> maxSize (objectPool st)"
    and "retrieveObject st fs h = (r, st', fs')"
  shows "maxSize (objectPool st') = maxSize (objectPool st)
         \<and> length (pool (objectPool st')) \<le> maxSize (objectPool st')"
  using retrieveObject_objectPool[OF assms(3)] assms(1,2) StoragePool_store_size
  by metis

lemma map_of_map_assign: "map_of (map_assign k v m) k = Some v"
  by (induction m) auto

lemma StoragePool_store_retrieve:
  "StoragePool_store k v p = Some p' \<Longrightarrow> StoragePool_retrieve k p' = Some v"
  by (auto simp: StoragePool_store_def StoragePool_retrieve_def map_of_map_assign
      split: if_splits list.splits)

lemma run_call_pool:
  assumes "0 < maxSize (objectPool st)"
    and "length (pool (objectPool st)) \<le> maxSize (objectPool st)"
    and "run_call sha c (st, fs) = (st', fs')"
  shows "maxSize (objectPool st') = maxSize (objectPool st)
         \<and> length (pool (objectPool st')) \<le> maxSize (objectPool st')"
proof (cases c)
  case (StoreObject obj)
  obtain r obj' st1 fs1 where s: "storeObject sha st fs obj = (r, obj', st1, fs1)"
    by (metis prod_cases4)
  with StoreObject assms(3) have "st1 = st'" by simp
  with storeObject_pool[OF assms(1,2) s] show ?thesis by simp
next
  case (RetrieveObject h)
  obtain r st1 fs1 where s: "retrieveObject st fs h = (r, st1, fs1)"
    by (metis prod_cases3)
  with RetrieveObject assms(3) have "st1 = st'" by simp
  with retrieveObject_pool[OF assms(1,2) s] show ?thesis by simp
qed

lemma run_calls_pool:
  "0 < maxSize (objectPool st) \<Longrightarrow> length (pool (objectPool st)) \<le> maxSize (objectPool st)
   \<Longrightarrow> run_calls sha cs (st, fs) = (st', fs')
   \<Longrightarrow> maxSize (objectPool st') = maxSize (objectPool st)
         \<and> length (pool (objectPool st')) \<le> maxSize (objectPool st')"
proof (induction cs arbitrary: st fs)
  case Nil
  then show ?case by (simp add: run_calls_def)
next
  case (Cons c cs)
  obtain st1 fs1 where one: "run_call sha c (st, fs) = (st1, fs1)"
    by (cases "run_call sha c (st, fs)")
  from run_call_pool[OF Cons.prems(1,2) one]
  have m: "maxSize (objectPool st1) = maxSize (objectPool st)"
    and l: "length (pool (objectPool st1)) \<le> maxSize (objectPool st1)" by simp_all
  from Cons.prems(3) one have "run_calls sha cs (st1, fs1) = (st', fs')"
    by (simp add: run_calls_def)
  from Cons.IH[OF _ l this] m Cons.prems(1) show ?case by simp
qed

text \<open>
  C8. For a pool with a positive capacity that holds at most that many entries (an empty
  one, as the constructor makes it), after any sequence of \<^verbatim>\<open>storeObject\<close> and
  \<^verbatim>\<open>retrieveObject\<close> calls the capacity is unchanged, the pool holds at most that many
  entries, and a lookup succeeds only with an entry the pool holds.
\<close>

theorem cache_never_exceeds_capacity:
  assumes "0 < maxSize (objectPool st)"
    and "StoragePool_size (objectPool st) \<le> maxSize (objectPool st)"
    and "run_calls sha cs (st, fs) = (st', fs')"
  shows "maxSize (objectPool st') = maxSize (objectPool st)
         \<and> StoragePool_size (objectPool st') \<le> maxSize (objectPool st')
         \<and> (\<forall>h content. StoragePool_retrieve h (objectPool st') = Some content
               \<longrightarrow> (h, content) \<in> set (pool (objectPool st')))"
  using run_calls_pool[OF assms(1) _ assms(3)] assms(2)
  by (auto simp: StoragePool_size_def StoragePool_retrieve_def dest: map_of_SomeD)

lemmas eval_defs = storeObject_def retrieveObject_def reconstruct_def
  getHash_def computeHash_def join_lines_def hasObject_def getObjectPath_def
  StoragePool_contains_def StoragePool_retrieve_def StoragePool_store_def StoragePool_new_def
  ObjectStore_new_def readContent_def writeContent_def open_read_def open_write_def fs_exists_def
  createFileObject_def detectBinary_def TextFile_new_def BinaryFile_new_def length_hashStream
  map_of_map_assign Let_def

theorem cache_never_exceeds_capacity_witness:
  "\<exists>st' fs'.
     0 < maxSize (objectPool (ObjectStore_new ''store''))
     \<and> StoragePool_size (objectPool (ObjectStore_new ''store''))
         \<le> maxSize (objectPool (ObjectStore_new ''store''))
     \<and> run_calls demo_sha
          [StoreObject (TextFile_new ''a.txt''), RetrieveObject (hashStream (demo_sha []))]
          (ObjectStore_new ''store'', fs_foo) = (st', fs')
     \<and> pool (objectPool st') = [(hashStream (demo_sha []), ''foo\<newline>'')]
     \<and> maxSize (objectPool st') = 2000
     \<and> StoragePool_size (objectPool st') \<le> maxSize (objectPool st')
     \<and> StoragePool_retrieve (hashStream (demo_sha [])) (objectPool st') = Some ''foo\<newline>''
     \<and> (hashStream (demo_sha []), ''foo\<newline>'') \<in> set (pool (objectPool st'))"
proof -
  let ?S = "ObjectStore_new ''store''"
  have h1: "0 < maxSize (objectPool ?S)"
    by (simp add: ObjectStore_new_def StoragePool_new_def)
  have h2: "StoragePool_size (objectPool ?S) \<le> maxSize (objectPool ?S)"
    by (simp add: ObjectStore_new_def StoragePool_new_def StoragePool_size_def)
  obtain st' fs' where run: "run_calls demo_sha
          [StoreObject (TextFile_new ''a.txt''), RetrieveObject (hashStream (demo_sha []))]
          (?S, fs_foo) = (st', fs')"
    by (cases "run_calls demo_sha
          [StoreObject (TextFile_new ''a.txt''), RetrieveObject (hashStream (demo_sha []))]
          (?S, fs_foo)")
  then have p: "pool (objectPool st') = [(hashStream (demo_sha []), ''foo\<newline>'')]"
    by (auto simp: run_calls_def eval_defs fs_foo_def)
  from cache_never_exceeds_capacity[OF h1 h2 run] h1 h2 run p show ?thesis
    by (simp add: StoragePool_retrieve_def ObjectStore_new_def StoragePool_new_def)
qed

lemma storeObject_records_origin:
  assumes "storeObject sha st fs obj = (Inr h, obj1, st1, fs1)"
    and "hasObject st fs h = Inr False"
  shows "map_of (hashToPath st1) h = Some (filepath obj)"
  using assms
  by (auto simp: storeObject_def Let_def getHash_def readContent_def map_of_map_assign
      split: prod.splits sum.splits bool.splits option.splits if_splits variant.splits)

text \<open>
  C10. Whenever \<^verbatim>\<open>retrieveObject\<close> returns an object, the bytes it found (in the pool,
  or else in the blob on disk) have been written to the file at the path that
  \<^verbatim>\<open>hashToPath\<close> records for the hash, or at \<^verbatim>\<open>"temp"\<close> when it records none: that file
  now holds the blob's bytes in place of what it held, and the object returned is one for
  that path. (The path recorded is the one of the object first stored under the hash:
  \<open>storeObject_records_origin\<close>.)
\<close>

theorem retrieveObject_writes_origin:
  assumes "retrieveObject st fs h = (Inr (Some obj), st', fs')"
  shows "\<exists>content p.
           (StoragePool_retrieve h (objectPool st) = Some content
            \<or> (StoragePool_retrieve h (objectPool st) = None
                \<and> (\<exists>objPath. getObjectPath st h = Inr objPath
                       \<and> open_read fs objPath = Some content)))
           \<and> (map_of (hashToPath st) h = Some p
                \<or> (map_of (hashToPath st) h = None \<and> p = ''temp''))
           \<and> filepath obj = p
           \<and> files fs' = AList.update p content (files fs)
           \<and> map_of (files fs') p = Some content"
  using assms
  by (auto simp: retrieveObject_def reconstruct_def writeContent_def open_write_def
      createFileObject_def TextFile_new_def BinaryFile_new_def Let_def
      update_conv'
      split: option.splits sum.splits if_splits prod.splits variant.splits)

text \<open>
  Two instances. A hit in the pool for a hash with a recorded path: \<open>orig.txt\<close> held
  \<open>old\<close> and holds \<open>foo\<close> after the retrieval. A blob found on disk for a hash with no
  recorded path: its bytes are written to \<open>temp\<close>.
\<close>

theorem retrieveObject_writes_origin_witness:
  "(\<exists>obj st' fs'.
      retrieveObject st_recorded fs_orig ''abcd'' = (Inr (Some obj), st', fs')
      \<and> StoragePool_retrieve ''abcd'' (objectPool st_recorded) = Some ''foo''
      \<and> map_of (hashToPath st_recorded) ''abcd'' = Some ''orig.txt''
      \<and> map_of (files fs_orig) ''orig.txt'' = Some ''old''
      \<and> filepath obj = ''orig.txt''
      \<and> files fs' = [(''orig.txt'', ''foo'')])
   \<and> (\<exists>obj st' fs'.
      retrieveObject (ObjectStore_new ''store'') fs_blob ''abcd'' = (Inr (Some obj), st', fs')
      \<and> StoragePool_retrieve ''abcd'' (objectPool (ObjectStore_new ''store'')) = None
      \<and> getObjectPath (ObjectStore_new ''store'') ''abcd'' = Inr ''store/ab/cd''
      \<and> open_read fs_blob ''store/ab/cd'' = Some ''bar''
      \<and> map_of (hashToPath (ObjectStore_new ''store'')) ''abcd'' = None
      \<and> filepath obj = ''temp''
      \<and> files fs' = [(''store/ab/cd'', ''bar''), (''temp'', ''bar'')])"
proof -
  obtain obj st' fs' where
    r: "retrieveObject st_recorded fs_orig ''abcd'' = (Inr (Some obj), st', fs')"
    by (simp add: eval_defs st_recorded_def fs_orig_def)
  have c: "StoragePool_retrieve ''abcd'' (objectPool st_recorded) = Some ''foo''"
    by (simp add: StoragePool_retrieve_def st_recorded_def)
  have o: "map_of (hashToPath st_recorded) ''abcd'' = Some ''orig.txt''"
    by (simp add: st_recorded_def)
  have f: "map_of (files fs_orig) ''orig.txt'' = Some ''old''"
    by (simp add: fs_orig_def)
  from retrieveObject_writes_origin[OF r] c o
  have 1: "filepath obj = ''orig.txt'' \<and> files fs' = [(''orig.txt'', ''foo'')]"
    by (auto simp: fs_orig_def)
  let ?S = "ObjectStore_new ''store''"
  obtain obj2 st2 fs2 where
    r2: "retrieveObject ?S fs_blob ''abcd'' = (Inr (Some obj2), st2, fs2)"
    by (simp add: eval_defs fs_blob_def)
  have c2: "StoragePool_retrieve ''abcd'' (objectPool ?S) = None"
    by (simp add: eval_defs)
  have p2: "getObjectPath ?S ''abcd'' = Inr ''store/ab/cd''"
    by (simp add: eval_defs)
  have b2: "open_read fs_blob ''store/ab/cd'' = Some ''bar''"
    by (simp add: open_read_def fs_blob_def)
  have o2: "map_of (hashToPath ?S) ''abcd'' = None"
    by (simp add: ObjectStore_new_def)
  from retrieveObject_writes_origin[OF r2] c2 p2 b2 o2
  have 2: "filepath obj2 = ''temp'' \<and> files fs2 = [(''store/ab/cd'', ''bar''), (''temp'', ''bar'')]"
    by (auto simp: fs_blob_def)
  from r c o f 1 r2 c2 p2 b2 o2 2 show ?thesis by blast
qed

text \<open>
  C1, as the claim states it, fails: a text file whose last line has no line feed comes
  back with one. The file holds \<open>foo\<close>; the round trip returns \<open>foo\<close> and a line feed,
  for every digest function.
\<close>

theorem round_trip_appends_newline:
  "\<forall>sha. round_trip sha (ObjectStore_new ''store'') fs_foo (TextFile_new ''a.txt'')
            = Inr (Some ''foo\<newline>'')
         \<and> round_trip sha (ObjectStore_new ''store'') fs_foo (TextFile_new ''a.txt'')
            \<noteq> Inr (open_read fs_foo (filepath (TextFile_new ''a.txt'')))"
  by (simp add: round_trip_def eval_defs fs_foo_def)

lemma storeObject_fresh_success:
  assumes "storeObject sha st fs obj = (Inr h, obj1, st1, fs1)"
    and "hasObject st fs h = Inr False"
  shows "\<exists>content pool' objPath.
           h = fst (getHash sha obj)
           \<and> readContent fs (snd (getHash sha obj)) = Inr (content, obj1)
           \<and> StoragePool_store h content (objectPool st) = Some pool'
           \<and> getObjectPath st h = Inr objPath
           \<and> open_write fs objPath content = Some fs1
           \<and> st1 = st\<lparr>objectPool := pool',
                      hashToPath := map_assign h (filepath obj1) (hashToPath st)\<rparr>"
  using assms
  by (auto simp: storeObject_def Let_def getObjectPath_def
      split: prod.splits sum.splits bool.splits option.splits if_splits)

lemma storeObject_held_success:
  assumes "storeObject sha st fs obj = (Inr h, obj1, st1, fs1)"
    and "hasObject st fs h \<noteq> Inr False"
  shows "hasObject st fs h = Inr True \<and> st1 = st \<and> fs1 = fs"
  using assms
  by (auto simp: storeObject_def Let_def
      split: prod.splits sum.splits bool.splits option.splits if_splits)

lemma StoragePool_store_total:
  "0 < maxSize p \<Longrightarrow> \<exists>p'. StoragePool_store k v p = Some p'"
  by (cases "pool p") (auto simp: StoragePool_store_def)

lemma reconstruct_read_back:
  assumes q: "q = (case map_of (hashToPath st) h of Some p \<Rightarrow> p | None \<Rightarrow> ''temp'')"
    and wr: "q \<notin> unwritable fs" and rd: "q \<notin> unreadable fs"
  shows "\<exists>obj' fs2 o3.
           reconstruct st fs h content = (Inr (Some obj'), st, fs2)
           \<and> filepath obj' = q
           \<and> readContent fs2 obj' =
               Inr (if detectBinary fs q then content
                    else join_lines (getline_loop [] content), o3)"
  using wr rd unfolding q
  by (simp add: reconstruct_def writeContent_def open_write_def open_read_def
      createFileObject_def TextFile_new_def BinaryFile_new_def readContent_def Let_def
      update_conv')

lemma detectBinary_after_write:
  assumes "open_read fs p = Some bytes" and "detectBinary fs p"
  shows "detectBinary (fs\<lparr>files := AList.update objPath bytes (files fs)\<rparr>) p"
  using assms
  by (auto simp: detectBinary_def open_read_def update_conv' split: if_splits)

text \<open>
  C1, amended: when \<^verbatim>\<open>storeObject(content)\<close> succeeds on a store whose pool has a
  positive capacity (every \<^verbatim>\<open>ObjectStore\<close> has 2000), and the store holds nothing under
  the hash it returns or holds there the very bytes \<^verbatim>\<open>readContent\<close> gives for the content
  (in the pool, or else in a readable blob), and \<^verbatim>\<open>retrieveObject\<close> can write and read
  the file at the path recorded for the hash, classified as binary by the factory when
  the content is a binary object, then \<^verbatim>\<open>retrieveObject(storeObject(content))\<close> returns a
  present result whose content bytes are those bytes: the original bytes for binary
  content, and for text content the original bytes with a line feed after the last line
  (the original bytes themselves when the file is empty or ends in a line feed).
\<close>

theorem round_trip_canonical:
  assumes store: "storeObject sha st fs obj = (Inr h, obj1, st1, fs1)"
    and orig: "open_read fs (filepath obj) = Some bytes"
    and canon: "canon = (if isBinary obj then bytes
                         else if bytes = [] \<or> last bytes = CHR 0x0A then bytes
                         else bytes @ [CHR 0x0A])"
    and held: "hasObject st fs h = Inr False
               \<or> StoragePool_retrieve h (objectPool st) = Some canon
               \<or> (StoragePool_retrieve h (objectPool st) = None
                   \<and> (\<exists>objPath. getObjectPath st h = Inr objPath
                          \<and> open_read fs objPath = Some canon))"
    and cap: "0 < maxSize (objectPool st)"
    and q: "q = (case map_of (hashToPath st1) h of Some p \<Rightarrow> p | None \<Rightarrow> ''temp'')"
    and wr: "q \<notin> unwritable fs" and rd: "q \<notin> unreadable fs"
    and cls: "isBinary obj \<Longrightarrow> detectBinary fs q"
  shows "round_trip sha st fs obj = Inr (Some canon)"
proof -
  have canon_text: "\<not> isBinary obj \<Longrightarrow> join_lines (getline_loop [] canon) = canon"
    using join_lines_canonical[of bytes] by (simp add: canon canonical_bytes)
  have "\<exists>obj' st2 fs2 o3.
          retrieveObject st1 fs1 h = (Inr (Some obj'), st2, fs2)
          \<and> readContent fs2 obj' = Inr (canon, o3)"
  proof (cases "hasObject st fs h = Inr False")
    case True
    define o0 where "o0 = snd (getHash sha obj)"
    have fp0: "filepath o0 = filepath obj" and v0: "variant o0 = variant obj"
      by (simp_all add: o0_def getHash_filepath getHash_variant)
    from storeObject_fresh_success[OF store True] obtain content pool' objPath
      where rc: "readContent fs o0 = Inr (content, obj1)"
        and ps: "StoragePool_store h content (objectPool st) = Some pool'"
        and ow: "open_write fs objPath content = Some fs1"
        and st1: "st1 = st\<lparr>objectPool := pool',
                           hashToPath := map_assign h (filepath obj1) (hashToPath st)\<rparr>"
      by (auto simp: o0_def)
    from orig fp0 have "open_read fs (filepath o0) = Some bytes" by simp
    from readContent_result[OF this] rc v0 fp0
    have content: "content = canon" and fp1: "filepath obj1 = filepath obj"
      by (auto simp: isBinary_def canon canonical_bytes)
    from ow have fs1: "fs1 = fs\<lparr>files := AList.update objPath content (files fs)\<rparr>"
      by (auto simp: open_write_def split: if_splits)
    have hit: "StoragePool_retrieve h (objectPool st1) = Some canon"
      using StoragePool_store_retrieve[OF ps] by (simp add: st1 content)
    have qp: "q = filepath obj"
      by (simp add: q st1 map_of_map_assign fp1)
    have q1: "q = (case map_of (hashToPath st1) h of Some p \<Rightarrow> p | None \<Rightarrow> ''temp'')"
      by (rule q)
    have wr1: "q \<notin> unwritable fs1" and rd1: "q \<notin> unreadable fs1"
      using wr rd by (simp_all add: fs1)
    from reconstruct_read_back[OF q1 wr1 rd1, of canon] obtain obj' fs2 o3 where
      rec: "reconstruct st1 fs1 h canon = (Inr (Some obj'), st1, fs2)"
      and rb: "readContent fs2 obj' =
                 Inr (if detectBinary fs1 q then canon
                      else join_lines (getline_loop [] canon), o3)"
      by blast
    have "(if detectBinary fs1 q then canon else join_lines (getline_loop [] canon)) = canon"
    proof (cases "isBinary obj")
      case True
      with canon content have cb: "content = bytes" by simp
      from True cls have "detectBinary fs q" by simp
      with orig qp have "detectBinary fs1 q"
        unfolding fs1 cb by (intro detectBinary_after_write) simp_all
      then show ?thesis by simp
    next
      case False
      with canon_text show ?thesis by simp
    qed
    with rb have "readContent fs2 obj' = Inr (canon, o3)" by simp
    moreover have "retrieveObject st1 fs1 h = (Inr (Some obj'), st1, fs2)"
      using rec by (simp add: retrieveObject_def hit)
    ultimately show ?thesis by blast
  next
    case False
    from storeObject_held_success[OF store False]
    have same: "st1 = st" "fs1 = fs" by simp_all
    have q0: "q = (case map_of (hashToPath st) h of Some p \<Rightarrow> p | None \<Rightarrow> ''temp'')"
      using q same by simp
    have keep: "(if detectBinary fs q then canon else join_lines (getline_loop [] canon)) = canon"
      using cls canon_text by (cases "isBinary obj") simp_all
    from False held consider
      (pool) "StoragePool_retrieve h (objectPool st) = Some canon"
      | (disk) objPath where "StoragePool_retrieve h (objectPool st) = None"
          "getObjectPath st h = Inr objPath" "open_read fs objPath = Some canon"
      by blast
    then show ?thesis
    proof cases
      case pool
      from reconstruct_read_back[OF q0 wr rd, of canon] obtain obj' fs2 o3 where
        "reconstruct st fs h canon = (Inr (Some obj'), st, fs2)"
        and "readContent fs2 obj' =
                 Inr (if detectBinary fs q then canon
                      else join_lines (getline_loop [] canon), o3)"
        by blast
      with keep pool same show ?thesis
        by (simp add: retrieveObject_def)
    next
      case disk
      from disk(3) have ex: "fs_exists fs objPath"
        by (auto simp: open_read_def fs_exists_def split: if_splits)
      from StoragePool_store_total[OF cap] obtain pool' where
        ps: "StoragePool_store h canon (objectPool st) = Some pool'" by blast
      have q2: "q = (case map_of (hashToPath (st\<lparr>objectPool := pool'\<rparr>)) h of
                       Some p \<Rightarrow> p | None \<Rightarrow> ''temp'')"
        using q0 by simp
      from reconstruct_read_back[OF q2 wr rd, of canon] obtain obj' fs2 o3 where
        "reconstruct (st\<lparr>objectPool := pool'\<rparr>) fs h canon
           = (Inr (Some obj'), st\<lparr>objectPool := pool'\<rparr>, fs2)"
        and "readContent fs2 obj' =
                 Inr (if detectBinary fs q then canon
                      else join_lines (getline_loop [] canon), o3)"
        by blast
      with keep disk ex ps same show ?thesis
        by (simp add: retrieveObject_def)
    qed
  qed
  then obtain obj' st2 fs2 o3 where
    "retrieveObject st1 fs1 h = (Inr (Some obj'), st2, fs2)"
    and "readContent fs2 obj' = Inr (canon, o3)"
    by blast
  with store show ?thesis
    by (simp add: round_trip_def)
qed

text \<open>
  Two instances, both with a file \<open>foo\<close> that has no line feed at its end. The first
  store into an empty store: the round trip returns \<open>foo\<close> with a line feed. Then a
  second object with the same lines, for another file with the same bytes, when the store
  is as that first store left it: the hash is held, nothing is stored, and the round trip
  returns the same bytes (written to the file of the first object, whose path is the one
  recorded).
\<close>

theorem round_trip_canonical_witness:
  "(\<exists>h obj1.
      storeObject demo_sha (ObjectStore_new ''store'') fs_foos
          (setLines [''foo''] (TextFile_new ''a.txt''))
        = (Inr h, obj1, st_held, fs_held)
      \<and> open_read fs_foos (filepath (setLines [''foo''] (TextFile_new ''a.txt''))) = Some ''foo''
      \<and> \<not> isBinary (setLines [''foo''] (TextFile_new ''a.txt''))
      \<and> hasObject (ObjectStore_new ''store'') fs_foos h = Inr False
      \<and> 0 < maxSize (objectPool (ObjectStore_new ''store''))
      \<and> map_of (hashToPath st_held) h = Some ''a.txt''
      \<and> ''a.txt'' \<notin> unwritable fs_foos \<and> ''a.txt'' \<notin> unreadable fs_foos
      \<and> round_trip demo_sha (ObjectStore_new ''store'') fs_foos
           (setLines [''foo''] (TextFile_new ''a.txt'')) = Inr (Some ''foo\<newline>''))
   \<and> (\<exists>h obj1.
      storeObject demo_sha st_held fs_held (setLines [''foo''] (TextFile_new ''b.txt''))
        = (Inr h, obj1, st_held, fs_held)
      \<and> open_read fs_held (filepath (setLines [''foo''] (TextFile_new ''b.txt''))) = Some ''foo''
      \<and> \<not> isBinary (setLines [''foo''] (TextFile_new ''b.txt''))
      \<and> hasObject st_held fs_held h = Inr True
      \<and> StoragePool_retrieve h (objectPool st_held) = Some ''foo\<newline>''
      \<and> 0 < maxSize (objectPool st_held)
      \<and> map_of (hashToPath st_held) h = Some ''a.txt''
      \<and> ''a.txt'' \<notin> unwritable fs_held \<and> ''a.txt'' \<notin> unreadable fs_held
      \<and> round_trip demo_sha st_held fs_held
           (setLines [''foo''] (TextFile_new ''b.txt'')) = Inr (Some ''foo\<newline>''))"
proof -
  let ?S = "ObjectStore_new ''store''"
  let ?a = "setLines [''foo''] (TextFile_new ''a.txt'')"
  let ?b = "setLines [''foo''] (TextFile_new ''b.txt'')"
  let ?h = "hashStream (demo_sha ''foo\<newline>'')"
  have canon: "''foo\<newline>'' = (if isBinary x then ''foo''
                          else if ''foo'' = [] \<or> last ''foo'' = CHR 0x0A then ''foo''
                          else ''foo'' @ [CHR 0x0A])" if "\<not> isBinary x" for x
    using that by simp
  have q: "''a.txt'' = (case map_of (hashToPath st_held) ?h of Some p \<Rightarrow> p | None \<Rightarrow> ''temp'')"
    by (simp add: st_held_def)
  have rec: "map_of (hashToPath st_held) ?h = Some ''a.txt''"
    by (simp add: st_held_def)
  \<comment> \<open>the first store\<close>
  obtain r obj1 st1 fs1 where s: "storeObject demo_sha ?S fs_foos ?a = (r, obj1, st1, fs1)"
    by (metis prod_cases4)
  then have "r = Inr ?h \<and> st1 = st_held \<and> fs1 = fs_held"
    by (auto simp: eval_defs setLines_def fs_foos_def st_held_def fs_held_def)
  with s have s1: "storeObject demo_sha ?S fs_foos ?a = (Inr ?h, obj1, st_held, fs_held)"
    by simp
  have o1: "open_read fs_foos (filepath ?a) = Some ''foo''"
    by (simp add: open_read_def fs_foos_def setLines_def TextFile_new_def)
  have nb1: "\<not> isBinary ?a"
    by (simp add: isBinary_def setLines_def TextFile_new_def)
  have new1: "hasObject ?S fs_foos ?h = Inr False"
    by (simp add: eval_defs fs_foos_def)
  then have held1: "hasObject ?S fs_foos ?h = Inr False
      \<or> StoragePool_retrieve ?h (objectPool ?S) = Some ''foo\<newline>''
      \<or> (StoragePool_retrieve ?h (objectPool ?S) = None
          \<and> (\<exists>objPath. getObjectPath ?S ?h = Inr objPath
                 \<and> open_read fs_foos objPath = Some ''foo\<newline>''))"
    by simp
  have cap1: "0 < maxSize (objectPool ?S)"
    by (simp add: ObjectStore_new_def StoragePool_new_def)
  have w1: "''a.txt'' \<notin> unwritable fs_foos" and r1: "''a.txt'' \<notin> unreadable fs_foos"
    by (simp_all add: fs_foos_def)
  from round_trip_canonical[OF s1 o1 canon[OF nb1] held1 cap1 q w1 r1] nb1
  have t1: "round_trip demo_sha ?S fs_foos ?a = Inr (Some ''foo\<newline>'')"
    by simp
  \<comment> \<open>the second store, of the twin\<close>
  obtain r' obj2 st2 fs2 where s': "storeObject demo_sha st_held fs_held ?b = (r', obj2, st2, fs2)"
    by (metis prod_cases4)
  then have "r' = Inr ?h \<and> st2 = st_held \<and> fs2 = fs_held"
    by (auto simp: eval_defs setLines_def st_held_def fs_held_def)
  with s' have s2: "storeObject demo_sha st_held fs_held ?b = (Inr ?h, obj2, st_held, fs_held)"
    by simp
  have o2: "open_read fs_held (filepath ?b) = Some ''foo''"
    by (simp add: open_read_def fs_held_def setLines_def TextFile_new_def)
  have nb2: "\<not> isBinary ?b"
    by (simp add: isBinary_def setLines_def TextFile_new_def)
  have has2: "hasObject st_held fs_held ?h = Inr True"
    by (simp add: hasObject_def StoragePool_contains_def st_held_def)
  have pool2: "StoragePool_retrieve ?h (objectPool st_held) = Some ''foo\<newline>''"
    by (simp add: StoragePool_retrieve_def st_held_def)
  then have held2: "hasObject st_held fs_held ?h = Inr False
      \<or> StoragePool_retrieve ?h (objectPool st_held) = Some ''foo\<newline>''
      \<or> (StoragePool_retrieve ?h (objectPool st_held) = None
          \<and> (\<exists>objPath. getObjectPath st_held ?h = Inr objPath
                 \<and> open_read fs_held objPath = Some ''foo\<newline>''))"
    by simp
  have cap2: "0 < maxSize (objectPool st_held)"
    by (simp add: st_held_def)
  have w2: "''a.txt'' \<notin> unwritable fs_held" and r2: "''a.txt'' \<notin> unreadable fs_held"
    by (simp_all add: fs_held_def)
  from round_trip_canonical[OF s2 o2 canon[OF nb2] held2 cap2 q w2 r2] nb2
  have t2: "round_trip demo_sha st_held fs_held ?b = Inr (Some ''foo\<newline>'')"
    by simp
  from s1 o1 nb1 new1 cap1 rec w1 r1 t1 have first: "\<exists>h obj1.
      storeObject demo_sha ?S fs_foos ?a = (Inr h, obj1, st_held, fs_held)
      \<and> open_read fs_foos (filepath ?a) = Some ''foo''
      \<and> \<not> isBinary ?a
      \<and> hasObject ?S fs_foos h = Inr False
      \<and> 0 < maxSize (objectPool ?S)
      \<and> map_of (hashToPath st_held) h = Some ''a.txt''
      \<and> ''a.txt'' \<notin> unwritable fs_foos \<and> ''a.txt'' \<notin> unreadable fs_foos
      \<and> round_trip demo_sha ?S fs_foos ?a = Inr (Some ''foo\<newline>'')"
    by blast
  from s2 o2 nb2 has2 pool2 cap2 rec w2 r2 t2 have second: "\<exists>h obj1.
      storeObject demo_sha st_held fs_held ?b = (Inr h, obj1, st_held, fs_held)
      \<and> open_read fs_held (filepath ?b) = Some ''foo''
      \<and> \<not> isBinary ?b
      \<and> hasObject st_held fs_held h = Inr True
      \<and> StoragePool_retrieve h (objectPool st_held) = Some ''foo\<newline>''
      \<and> 0 < maxSize (objectPool st_held)
      \<and> map_of (hashToPath st_held) h = Some ''a.txt''
      \<and> ''a.txt'' \<notin> unwritable fs_held \<and> ''a.txt'' \<notin> unreadable fs_held
      \<and> round_trip demo_sha st_held fs_held ?b = Inr (Some ''foo\<newline>'')"
    by blast
  from first second show ?thesis by (rule conjI)
qed

text \<open>
  C4 fails on the code. Two text files with the same bytes; the first object has loaded
  its content before it is stored, the second is stored as the factory leaves it. The
  second \<^verbatim>\<open>storeObject\<close> returns another hash (the digest of the empty message), writes a
  second blob and doubles the storage size, for every digest function that tells the
  content from the empty message.
\<close>

theorem unloaded_twin_stored_twice:
  assumes "hashStream (sha ''x\<newline>'') \<noteq> hashStream (sha [])"
  shows "\<exists>c a o1 st1 fs1 o2 st2 fs2.
      open_read fs_twins ''a.txt'' = open_read fs_twins ''b.txt''
    \<and> readContent fs_twins (TextFile_new ''a.txt'') = Inr (c, a)
    \<and> storeObject sha (ObjectStore_new ''store'') fs_twins a
        = (Inr (hashStream (sha ''x\<newline>'')), o1, st1, fs1)
    \<and> storeObject sha st1 fs1 (TextFile_new ''b.txt'')
        = (Inr (hashStream (sha [])), o2, st2, fs2)
    \<and> getStorageSize st1 fs1 = 2 \<and> getStorageSize st2 fs2 = 4
    \<and> length (files fs1) = 3 \<and> length (files fs2) = 4"
proof -
  let ?h1 = "hashStream (sha ''x\<newline>'')" and ?h2 = "hashStream (sha [])"
  have td: "take 2 ?h1 = take 2 ?h2 \<longrightarrow> drop 2 ?h1 \<noteq> drop 2 ?h2"
    using assms by (metis append_take_drop_id)
  have td': "take 2 ?h2 = take 2 ?h1 \<longrightarrow> drop 2 ?h2 \<noteq> drop 2 ?h1"
    using assms by (metis append_take_drop_id)
  from assms have ne: "?h2 \<noteq> ?h1" by simp
  show ?thesis
    using assms ne td td'
    by (simp add: eval_defs fs_twins_def getStorageSize_def)
qed

theorem unloaded_twin_stored_twice_witness:
  "hashStream (demo_sha ''x\<newline>'') \<noteq> hashStream (demo_sha [])
   \<and> (\<exists>c a o1 st1 fs1 o2 st2 fs2.
      open_read fs_twins ''a.txt'' = open_read fs_twins ''b.txt''
    \<and> readContent fs_twins (TextFile_new ''a.txt'') = Inr (c, a)
    \<and> storeObject demo_sha (ObjectStore_new ''store'') fs_twins a
        = (Inr (hashStream (demo_sha ''x\<newline>'')), o1, st1, fs1)
    \<and> storeObject demo_sha st1 fs1 (TextFile_new ''b.txt'')
        = (Inr (hashStream (demo_sha [])), o2, st2, fs2)
    \<and> getStorageSize st1 fs1 = 2 \<and> getStorageSize st2 fs2 = 4
    \<and> length (files fs1) = 3 \<and> length (files fs2) = 4)"
proof -
  have ne: "hashStream (demo_sha ''x\<newline>'') \<noteq> hashStream (demo_sha [])"
    by code_simp
  from unloaded_twin_stored_twice[OF ne] ne show ?thesis by blast
qed

text \<open>
  What does hold of the deduplication: storing an object whose hash the store holds
  returns that hash and changes neither the store nor the file system.
\<close>

lemma storeObject_present_noop:
  assumes "hasObject st fs (fst (getHash sha obj)) = Inr True"
  shows "storeObject sha st fs obj = (Inr (fst (getHash sha obj)), snd (getHash sha obj), st, fs)"
  using assms by (cases "getHash sha obj") (simp add: storeObject_def)

end
